theory Spec2Isabelle
  imports Complex_Main
begin

section \<open>Element values\<close>

text \<open>
  The tensors hold floating-point elements. The kernel never computes with them: it
  stores the constants 0.0, 1.0 and negative infinity and compares elements with \<open>>\<close>.
  An element is therefore a finite number, one of the two infinities, or NaN, and the
  comparison is the IEEE one, where NaN compares false with everything.
\<close>

datatype fval = NaN | NegInf | Fin real | PosInf

fun fgt :: "fval \<Rightarrow> fval \<Rightarrow> bool" where
  "fgt NaN y = False"
| "fgt NegInf y = False"
| "fgt (Fin a) NaN = False"
| "fgt (Fin a) NegInf = True"
| "fgt (Fin a) (Fin b) = (a > b)"
| "fgt (Fin a) PosInf = False"
| "fgt PosInf NaN = False"
| "fgt PosInf NegInf = True"
| "fgt PosInf (Fin b) = True"
| "fgt PosInf PosInf = False"

fun fge :: "fval \<Rightarrow> fval \<Rightarrow> bool" where
  "fge NaN y = False"
| "fge x NaN = False"
| "fge x y = (\<not> fgt y x)"

text \<open>
  Addition, used only to add up the results. On finite values it is the exact sum: the
  sums taken below add 0.0 and 1.0, which no binary floating-point format rounds.
\<close>

fun fadd :: "fval \<Rightarrow> fval \<Rightarrow> fval" where
  "fadd (Fin a) (Fin b) = Fin (a + b)"
| "fadd NaN y = NaN"
| "fadd x NaN = NaN"
| "fadd NegInf PosInf = NaN"
| "fadd PosInf NegInf = NaN"
| "fadd NegInf y = NegInf"
| "fadd x NegInf = NegInf"
| "fadd PosInf y = PosInf"
| "fadd x PosInf = PosInf"

section \<open>Statement and expression model\<close>

text \<open>
  A tensor buffer is named by its position in the input or output list of the extern
  binding (\<open>ins[0]\<close>, \<open>outs[0]\<close> in the source); a scratch value and an induction variable
  are named by the string given to the builder.
\<close>

datatype buffer_id = Ins nat | Outs nat

datatype expr =
    IntConst int
  | FloatConst fval
  | Var string
  | BufLoad buffer_id expr
  | ScratchLoad string expr
  | Add expr expr
  | Mul expr expr
  | GT expr expr

datatype stmt =
    Seq "stmt list"
  | For string expr expr stmt
  | IfThenElse expr stmt "stmt option"
  | BufStore buffer_id expr expr
  | ScratchStore string expr expr

datatype error =
    IndexError
  | UnclosedScope
  | AxisOutOfRange
  | InvalidShape
  | OutOfBounds
  | Uninitialized
  | TypeError
  | Unbound

section \<open>Kernel IR builder\<close>

text \<open>
  Modelled from the spec: the builder (\<open>tir.ir_builder\<close>) is not among the sources. A
  session holds the scratch values allocated so far and a stack of statement lists, the
  innermost open scope first. Opening a scope pushes an empty list; closing it pops the
  list and appends one compound node to the parent; sealing returns the root sequence
  and fails with \<open>UnclosedScope\<close> while a scope is open.
\<close>

record scratch =
  sc_dtype :: string
  sc_extent :: "int list"
  sc_name :: string
  sc_scope :: string

record builder =
  allocs :: "scratch list"
  scopes :: "stmt list list"

record buffer =
  buf_id :: buffer_id
  buf_shape :: "int list"
  buf_dtype :: string

definition create :: builder where
  "create = \<lparr>allocs = [], scopes = [[]]\<rparr>"

definition buffer_ptr :: "buffer \<Rightarrow> buffer_id" where
  "buffer_ptr b = buf_id b"

definition allocate :: "string \<Rightarrow> int list \<Rightarrow> string \<Rightarrow> string \<Rightarrow> builder \<Rightarrow> string \<times> builder" where
  "allocate dt ext name scope ib =
     (name, ib\<lparr>allocs := allocs ib @ [\<lparr>sc_dtype = dt, sc_extent = ext, sc_name = name, sc_scope = scope\<rparr>]\<rparr>)"

definition emit :: "stmt \<Rightarrow> builder \<Rightarrow> builder" where
  "emit s ib = (case scopes ib of
                  [] \<Rightarrow> ib
                | cur # rest \<Rightarrow> ib\<lparr>scopes := (cur @ [s]) # rest\<rparr>)"

definition enter_scope :: "builder \<Rightarrow> builder" where
  "enter_scope ib = ib\<lparr>scopes := [] # scopes ib\<rparr>"

definition exit_scope :: "(stmt \<Rightarrow> stmt) \<Rightarrow> builder \<Rightarrow> builder" where
  "exit_scope mk ib = (case scopes ib of
                         body # parent # rest \<Rightarrow> ib\<lparr>scopes := (parent @ [mk (Seq body)]) # rest\<rparr>
                       | _ \<Rightarrow> ib)"

definition for_range :: "expr \<Rightarrow> expr \<Rightarrow> string \<Rightarrow> (expr \<Rightarrow> builder \<Rightarrow> builder) \<Rightarrow> builder \<Rightarrow> builder" where
  "for_range lo hi name body ib =
     exit_scope (For name lo hi) (body (Var name) (enter_scope ib))"

definition if_scope :: "expr \<Rightarrow> (builder \<Rightarrow> builder) \<Rightarrow> builder \<Rightarrow> builder" where
  "if_scope cond body ib =
     exit_scope (\<lambda>s. IfThenElse cond s None) (body (enter_scope ib))"

definition store :: "buffer_id \<Rightarrow> expr \<Rightarrow> expr \<Rightarrow> builder \<Rightarrow> builder" where
  "store b idx v = emit (BufStore b idx v)"

definition load :: "buffer_id \<Rightarrow> expr \<Rightarrow> expr" where
  "load b idx = BufLoad b idx"

definition store_scratch :: "string \<Rightarrow> expr \<Rightarrow> expr \<Rightarrow> builder \<Rightarrow> builder" where
  "store_scratch s idx v = emit (ScratchStore s idx v)"

definition load_scratch :: "string \<Rightarrow> expr \<Rightarrow> expr" where
  "load_scratch s idx = ScratchLoad s idx"

definition get :: "builder \<Rightarrow> error + stmt" where
  "get ib = (case scopes ib of [ss] \<Rightarrow> Inr (Seq ss) | _ \<Rightarrow> Inl UnclosedScope)"

section \<open>Shape utilities\<close>

text \<open>
  Modelled from the spec: \<open>get_const_tuple\<close> and \<open>prod\<close> of \<open>topi.utils\<close> are not among
  the sources. The first turns a constant shape into a tuple of integers, the second
  multiplies the extents.
\<close>

definition get_const_tuple :: "int list \<Rightarrow> int list" where
  "get_const_tuple s = s"

definition prod :: "int list \<Rightarrow> int" where
  "prod s = fold (\<lambda>d acc. acc * d) s 1"

text \<open>
  Indexing a Python tuple: positions \<open>0\<close> to \<open>len - 1\<close> count from the front, positions
  \<open>-len\<close> to \<open>-1\<close> from the back, and every other index raises \<open>IndexError\<close>.
\<close>

definition tuple_getitem :: "int list \<Rightarrow> int \<Rightarrow> error + int" where
  "tuple_getitem xs i =
     (if 0 \<le> i \<and> i < int (length xs) then Inr (xs ! nat i)
      else if - int (length xs) \<le> i \<and> i < 0 then Inr (xs ! nat (int (length xs) + i))
      else Inl IndexError)"

section \<open>The hardmax kernel\<close>

text \<open>
  \<open>_hardmax\<close> of the source, with the builder session passed explicitly;
  \<open>axis_value\<close> stands for \<open>axis.value\<close>. The result is paired with the session as
  it stands when the function returns or raises, so that the statements emitted before a
  failure stay visible.
\<close>

definition hardmax_kernel :: "buffer \<Rightarrow> buffer \<Rightarrow> int \<Rightarrow> (error + stmt) \<times> builder" where
  "hardmax_kernel data out_buf axis_value =
    (let ib = create;
         input_data = buffer_ptr data;
         out = buffer_ptr out_buf;
         (temp, ib) = allocate ''float32'' [1] ''temp_data'' ''local'' ib;
         (temp1, ib) = allocate ''int32'' [1] ''temp1_data'' ''local'' ib;
         shape = get_const_tuple (buf_shape data);
         axis = (if axis_value = - 1 then int (length (buf_shape data)) - 1 else axis_value);
         out_size = prod (buf_shape data);
         ib = for_range (IntConst 0) (IntConst out_size) ''i''
                (\<lambda>i. store out i (FloatConst (Fin 0))) ib;
         outer_size = fold (\<lambda>(i, s) acc. if int i < axis then acc * s else acc) (enumerate 0 shape) 1;
         inner_size = fold (\<lambda>(i, s) acc. if int i > axis then acc * s else acc) (enumerate 0 shape) 1
     in case tuple_getitem shape axis of
          Inl e \<Rightarrow> (Inl e, ib)
        | Inr cnt \<Rightarrow>
           (let ib = for_range (IntConst 0) (IntConst outer_size) ''i0'' (\<lambda>i.
                       for_range (IntConst 0) (IntConst inner_size) ''k'' (\<lambda>k ib.
                         (let ib = store_scratch temp (IntConst 0) (FloatConst NegInf) ib;
                              ib = store_scratch temp1 (IntConst 0)
                                     (Add (Mul (Mul i (IntConst inner_size)) (IntConst cnt)) k) ib;
                              ib = for_range (IntConst 0) (IntConst cnt) ''j'' (\<lambda>j.
                                     (let index = Add (Add (Mul (Mul i (IntConst inner_size)) (IntConst cnt))
                                                           (Mul j (IntConst inner_size))) k
                                      in if_scope (GT (load input_data index) (load_scratch temp (IntConst 0)))
                                           (\<lambda>ib. (let ib = store_scratch temp1 (IntConst 0) index ib;
                                                       ib = store_scratch temp (IntConst 0) (load input_data index) ib
                                                   in ib)))) ib;
                              ib = store out (load_scratch temp1 (IntConst 0)) (FloatConst (Fin 1)) ib
                          in ib))) ib
            in (get ib, ib)))"

section \<open>Extern binding\<close>

text \<open>
  Modelled from the spec: \<open>te.extern\<close> is not among the sources. It declares one buffer
  per input tensor and one output buffer of the given shape and type, calls the kernel
  constructor on them at once, and keeps the sealed tree together with the scratch values
  of the session that built it.
\<close>

record tensor =
  shape :: "int list"
  dtype :: string

record extern_op =
  ext_shape :: "int list"
  ext_dtype :: string
  ext_inputs :: "tensor list"
  ext_scratch :: "scratch list"
  ext_body :: stmt

definition te_extern ::
  "int list \<Rightarrow> tensor list \<Rightarrow> (buffer list \<Rightarrow> buffer list \<Rightarrow> (error + stmt) \<times> builder) \<Rightarrow> string
     \<Rightarrow> error + extern_op" where
  "te_extern shp inputs fcompute dt =
     (let ins = map (\<lambda>(n, t). \<lparr>buf_id = Ins n, buf_shape = shape t, buf_dtype = dtype t\<rparr>)
                    (enumerate 0 inputs);
          outs = [\<lparr>buf_id = Outs 0, buf_shape = shp, buf_dtype = dt\<rparr>]
      in case fcompute ins outs of
           (Inl e, ib) \<Rightarrow> Inl e
         | (Inr body, ib) \<Rightarrow>
             Inr \<lparr>ext_shape = shp, ext_dtype = dt, ext_inputs = inputs,
                  ext_scratch = allocs ib, ext_body = body\<rparr>)"

definition hardmax :: "tensor \<Rightarrow> int \<Rightarrow> error + extern_op" where
  "hardmax data axis =
     te_extern (shape data) [data] (\<lambda>ins outs. hardmax_kernel (ins ! 0) (outs ! 0) axis) (dtype data)"

section \<open>Executing a statement tree\<close>

text \<open>
  Modelled from the spec: the stage that executes a sealed tree is not among the sources.
  A for-range loop runs its body for each value from the lower bound up to, and excluding,
  the upper bound; the induction variable is bound for one run of the body and the
  bindings are put back after it. A store or load outside the buffer is an error, and so
  is a load of an element never stored. Index arithmetic is over the integers: the
  width of the generated index type is not part of the model. A store keeps the value
  as it is: conversion between element types is not part of the model either.
\<close>

datatype val = IntV int | FltV fval | BoolV bool

record mem =
  vars :: "string \<rightharpoonup> int"
  scratches :: "string \<rightharpoonup> val option list"
  tensors :: "buffer_id \<rightharpoonup> val option list"

definition load_at :: "val option list option \<Rightarrow> val \<Rightarrow> error + val" where
  "load_at arr i =
     (case arr of
        None \<Rightarrow> Inl Unbound
      | Some xs \<Rightarrow>
         (case i of
            IntV n \<Rightarrow>
              if 0 \<le> n \<and> n < int (length xs)
              then (case xs ! nat n of None \<Rightarrow> Inl Uninitialized | Some v \<Rightarrow> Inr v)
              else Inl OutOfBounds
          | _ \<Rightarrow> Inl TypeError))"

definition store_at :: "val option list option \<Rightarrow> val \<Rightarrow> val \<Rightarrow> error + val option list" where
  "store_at arr i v =
     (case arr of
        None \<Rightarrow> Inl Unbound
      | Some xs \<Rightarrow>
         (case i of
            IntV n \<Rightarrow>
              if 0 \<le> n \<and> n < int (length xs)
              then Inr (xs[nat n := Some v])
              else Inl OutOfBounds
          | _ \<Rightarrow> Inl TypeError))"

fun arith :: "(int \<Rightarrow> int \<Rightarrow> int) \<Rightarrow> val \<Rightarrow> val \<Rightarrow> error + val" where
  "arith f (IntV a) (IntV b) = Inr (IntV (f a b))"
| "arith f x y = Inl TypeError"

fun compare_gt :: "val \<Rightarrow> val \<Rightarrow> error + val" where
  "compare_gt (IntV a) (IntV b) = Inr (BoolV (a > b))"
| "compare_gt (FltV a) (FltV b) = Inr (BoolV (fgt a b))"
| "compare_gt x y = Inl TypeError"

fun eval :: "expr \<Rightarrow> mem \<Rightarrow> error + val" where
  "eval (IntConst n) m = Inr (IntV n)"
| "eval (FloatConst f) m = Inr (FltV f)"
| "eval (Var v) m = (case vars m v of None \<Rightarrow> Inl Unbound | Some n \<Rightarrow> Inr (IntV n))"
| "eval (BufLoad b e) m =
     (case eval e m of Inl er \<Rightarrow> Inl er | Inr i \<Rightarrow> load_at (tensors m b) i)"
| "eval (ScratchLoad s e) m =
     (case eval e m of Inl er \<Rightarrow> Inl er | Inr i \<Rightarrow> load_at (scratches m s) i)"
| "eval (Add a b) m =
     (case eval a m of Inl er \<Rightarrow> Inl er | Inr x \<Rightarrow>
        (case eval b m of Inl er \<Rightarrow> Inl er | Inr y \<Rightarrow> arith (+) x y))"
| "eval (Mul a b) m =
     (case eval a m of Inl er \<Rightarrow> Inl er | Inr x \<Rightarrow>
        (case eval b m of Inl er \<Rightarrow> Inl er | Inr y \<Rightarrow> arith (*) x y))"
| "eval (GT a b) m =
     (case eval a m of Inl er \<Rightarrow> Inl er | Inr x \<Rightarrow>
        (case eval b m of Inl er \<Rightarrow> Inl er | Inr y \<Rightarrow> compare_gt x y))"

text \<open>The first \<open>n\<close> iterations of a loop starting at \<open>a\<close>; an error ends the loop.\<close>

fun for_loop :: "(int \<Rightarrow> mem \<Rightarrow> error + mem) \<Rightarrow> int \<Rightarrow> nat \<Rightarrow> mem \<Rightarrow> error + mem" where
  "for_loop f a 0 m = Inr m"
| "for_loop f a (Suc n) m =
     (case for_loop f a n m of Inl er \<Rightarrow> Inl er | Inr m' \<Rightarrow> f (a + int n) m')"

fun exec :: "stmt \<Rightarrow> mem \<Rightarrow> error + mem" where
  "exec (Seq ss) m =
     fold (\<lambda>s r. case r of Inl er \<Rightarrow> Inl er | Inr m' \<Rightarrow> exec s m') ss (Inr m)"
| "exec (For v lo hi body) m =
     (case eval lo m of Inl er \<Rightarrow> Inl er | Inr x \<Rightarrow>
        (case eval hi m of Inl er \<Rightarrow> Inl er | Inr y \<Rightarrow>
           (case (x, y) of
              (IntV a, IntV b) \<Rightarrow>
                for_loop (\<lambda>i m'. case exec body (m'\<lparr>vars := (vars m')(v \<mapsto> i)\<rparr>) of
                                    Inl er \<Rightarrow> Inl er
                                  | Inr m'' \<Rightarrow> Inr (m''\<lparr>vars := vars m'\<rparr>))
                         a (nat (b - a)) m
            | _ \<Rightarrow> Inl TypeError)))"
| "exec (IfThenElse c t e) m =
     (case eval c m of
        Inl er \<Rightarrow> Inl er
      | Inr (BoolV True) \<Rightarrow> exec t m
      | Inr (BoolV False) \<Rightarrow> (case e of None \<Rightarrow> Inr m | Some s \<Rightarrow> exec s m)
      | Inr _ \<Rightarrow> Inl TypeError)"
| "exec (BufStore b idx e) m =
     (case eval idx m of Inl er \<Rightarrow> Inl er | Inr i \<Rightarrow>
        (case eval e m of Inl er \<Rightarrow> Inl er | Inr v \<Rightarrow>
           (case store_at (tensors m b) i v of
              Inl er \<Rightarrow> Inl er
            | Inr xs \<Rightarrow> Inr (m\<lparr>tensors := (tensors m)(b \<mapsto> xs)\<rparr>))))"
| "exec (ScratchStore s idx e) m =
     (case eval idx m of Inl er \<Rightarrow> Inl er | Inr i \<Rightarrow>
        (case eval e m of Inl er \<Rightarrow> Inl er | Inr v \<Rightarrow>
           (case store_at (scratches m s) i v of
              Inl er \<Rightarrow> Inl er
            | Inr xs \<Rightarrow> Inr (m\<lparr>scratches := (scratches m)(s \<mapsto> xs)\<rparr>))))"

text \<open>
  The memory a tree starts from: the input buffers hold the given elements, the output
  buffer and the scratch values are allocated and hold nothing yet.
\<close>

definition init_mem :: "extern_op \<Rightarrow> fval list list \<Rightarrow> mem" where
  "init_mem op inputs =
     \<lparr>vars = Map.empty,
      scratches = map_of (map (\<lambda>s. (sc_name s, replicate (nat (prod (sc_extent s))) None))
                              (ext_scratch op)),
      tensors = (\<lambda>b. case b of
                   Ins n \<Rightarrow> if n < length inputs
                            then Some (map (\<lambda>x. Some (FltV x)) (inputs ! n)) else None
                 | Outs n \<Rightarrow> if n = 0
                             then Some (replicate (nat (prod (ext_shape op))) None) else None)\<rparr>"

fun read_out :: "val option list \<Rightarrow> error + fval list" where
  "read_out [] = Inr []"
| "read_out (Some (FltV x) # xs) =
     (case read_out xs of Inl er \<Rightarrow> Inl er | Inr ys \<Rightarrow> Inr (x # ys))"
| "read_out (None # xs) = Inl Uninitialized"
| "read_out (Some v # xs) = Inl TypeError"

definition execute :: "extern_op \<Rightarrow> fval list list \<Rightarrow> error + fval list" where
  "execute op inputs =
     (case exec (ext_body op) (init_mem op inputs) of
        Inl er \<Rightarrow> Inl er
      | Inr m \<Rightarrow> (case tensors m (Outs 0) of None \<Rightarrow> Inl Unbound | Some ys \<Rightarrow> read_out ys))"

text \<open>Building the kernel for a tensor of shape \<open>S\<close> and running it on the elements \<open>x\<close>.\<close>

definition hardmax_run :: "int list \<Rightarrow> string \<Rightarrow> int \<Rightarrow> fval list \<Rightarrow> error + fval list" where
  "hardmax_run S dt axis x =
     (case hardmax \<lparr>shape = S, dtype = dt\<rparr> axis of
        Inl er \<Rightarrow> Inl er
      | Inr op \<Rightarrow> execute op [x])"

section \<open>Notions used in the statements\<close>

text \<open>
  The sizes as the spec words them: the product of the extents before the axis, the
  product of the extents after it, and the extent of the axis itself.
\<close>

definition spec_outer_size :: "int list \<Rightarrow> int \<Rightarrow> int" where
  "spec_outer_size S a = prod_list (take (nat a) S)"

definition spec_inner_size :: "int list \<Rightarrow> int \<Rightarrow> int" where
  "spec_inner_size S a = prod_list (drop (nat a + 1) S)"

definition spec_axis_extent :: "int list \<Rightarrow> int \<Rightarrow> int" where
  "spec_axis_extent S a = S ! nat a"

text \<open>
  The axis as lines 102 to 105 of the source normalize it: \<open>-1\<close> becomes the last axis,
  every other value is kept as it is.
\<close>

definition normalized_axis :: "int list \<Rightarrow> int \<Rightarrow> int" where
  "normalized_axis S a = (if a = - 1 then int (length S) - 1 else a)"

definition flat_offset :: "int \<Rightarrow> int \<Rightarrow> int \<Rightarrow> int \<Rightarrow> int \<Rightarrow> int" where
  "flat_offset inner cnt i j k = i * inner * cnt + j * inner + k"

text \<open>The elements of a flat buffer along the axis, for the outer index \<open>i\<close> and inner index \<open>k\<close>.\<close>

definition axis_slice :: "'a list \<Rightarrow> int \<Rightarrow> int \<Rightarrow> int \<Rightarrow> int \<Rightarrow> 'a list" where
  "axis_slice xs inner cnt i k =
     map (\<lambda>j. xs ! nat (flat_offset inner cnt i (int j) k)) [0..<nat cnt]"

definition one_hot :: "nat \<Rightarrow> nat \<Rightarrow> fval list" where
  "one_hot n j = map (\<lambda>j'. if j' = j then Fin 1 else Fin 0) [0..<n]"

definition fsum :: "fval list \<Rightarrow> fval" where
  "fsum ys = foldl fadd (Fin 0) ys"

text \<open>
  Position \<open>j\<close> holds the maximum of \<open>ys\<close> and is the lowest such position, worded with
  the comparisons themselves: no element compares greater than \<open>ys ! j\<close>, and no element
  before \<open>j\<close> compares greater than or equal to it.
\<close>

definition first_max_at :: "fval list \<Rightarrow> nat \<Rightarrow> bool" where
  "first_max_at ys j \<longleftrightarrow>
     j < length ys \<and>
     (\<forall>j' < length ys. \<not> fgt (ys ! j') (ys ! j)) \<and>
     (\<forall>j' < j. \<not> fge (ys ! j') (ys ! j))"

text \<open>
  The same for elements that are all comparable: \<open>ys ! j\<close> is greater than or equal to
  every element, and no earlier position has that property.
\<close>

definition attains_max :: "fval list \<Rightarrow> nat \<Rightarrow> bool" where
  "attains_max ys j \<longleftrightarrow> j < length ys \<and> (\<forall>j' < length ys. fge (ys ! j) (ys ! j'))"

definition lowest_attaining_max :: "fval list \<Rightarrow> nat \<Rightarrow> bool" where
  "lowest_attaining_max ys j \<longleftrightarrow> attains_max ys j \<and> (\<forall>j' < j. \<not> attains_max ys j')"

section \<open>The loops of the kernel as functions\<close>

text \<open>
  The scan over one axis group (lines 124 to 130 of the source) read as a function:
  the running best value and its position after the first \<open>n\<close> elements \<open>g 0, \<dots>, g (n - 1)\<close>.
\<close>

fun best_j :: "(nat \<Rightarrow> fval) \<Rightarrow> nat \<Rightarrow> fval \<times> nat" where
  "best_j g 0 = (NegInf, 0)"
| "best_j g (Suc n) =
     (case best_j g n of (b, p) \<Rightarrow> if fgt (g n) b then (g n, n) else (b, p))"

definition winner :: "fval list \<Rightarrow> int \<Rightarrow> int \<Rightarrow> int \<Rightarrow> int \<Rightarrow> nat" where
  "winner x inner cnt i k =
     snd (best_j (\<lambda>j. x ! nat (flat_offset inner cnt i (int j) k)) (nat cnt))"

text \<open>The pieces of the tree that \<open>hardmax_kernel\<close> builds.\<close>

definition flat_index_expr :: "int \<Rightarrow> int \<Rightarrow> expr" where
  "flat_index_expr inner cnt =
     Add (Add (Mul (Mul (Var ''i0'') (IntConst inner)) (IntConst cnt))
              (Mul (Var ''j'') (IntConst inner)))
         (Var ''k'')"

definition zero_fill_loop :: "buffer_id \<Rightarrow> int \<Rightarrow> stmt" where
  "zero_fill_loop out n =
     For ''i'' (IntConst 0) (IntConst n) (Seq [BufStore out (Var ''i'') (FloatConst (Fin 0))])"

definition scan_step :: "buffer_id \<Rightarrow> int \<Rightarrow> int \<Rightarrow> stmt" where
  "scan_step inp inner cnt =
     IfThenElse (GT (BufLoad inp (flat_index_expr inner cnt)) (ScratchLoad ''temp_data'' (IntConst 0)))
       (Seq [ScratchStore ''temp1_data'' (IntConst 0) (flat_index_expr inner cnt),
             ScratchStore ''temp_data'' (IntConst 0) (BufLoad inp (flat_index_expr inner cnt))])
       None"

definition scan_loop :: "buffer_id \<Rightarrow> int \<Rightarrow> int \<Rightarrow> stmt" where
  "scan_loop inp inner cnt =
     For ''j'' (IntConst 0) (IntConst cnt) (Seq [scan_step inp inner cnt])"

definition group_body :: "buffer_id \<Rightarrow> buffer_id \<Rightarrow> int \<Rightarrow> int \<Rightarrow> stmt" where
  "group_body inp out inner cnt =
     Seq [ScratchStore ''temp_data'' (IntConst 0) (FloatConst NegInf),
          ScratchStore ''temp1_data'' (IntConst 0)
            (Add (Mul (Mul (Var ''i0'') (IntConst inner)) (IntConst cnt)) (Var ''k'')),
          scan_loop inp inner cnt,
          BufStore out (ScratchLoad ''temp1_data'' (IntConst 0)) (FloatConst (Fin 1))]"

definition mark_loops :: "buffer_id \<Rightarrow> buffer_id \<Rightarrow> int \<Rightarrow> int \<Rightarrow> int \<Rightarrow> stmt" where
  "mark_loops inp out outer inner cnt =
     For ''i0'' (IntConst 0) (IntConst outer)
       (Seq [For ''k'' (IntConst 0) (IntConst inner) (group_body inp out inner cnt)])"

definition kernel_tree :: "buffer_id \<Rightarrow> buffer_id \<Rightarrow> int \<Rightarrow> int \<Rightarrow> int \<Rightarrow> int \<Rightarrow> stmt" where
  "kernel_tree inp out out_size outer inner cnt =
     Seq [zero_fill_loop out out_size, mark_loops inp out outer inner cnt]"

text \<open>The memory of a run of the kernel: the bindings, the two scratch cells, input and output.\<close>

definition hm_mem :: "(string \<rightharpoonup> int) \<Rightarrow> val option \<Rightarrow> val option \<Rightarrow> fval list \<Rightarrow> val option list \<Rightarrow> mem" where
  "hm_mem V t p x out =
     \<lparr>vars = V,
      scratches = [''temp_data'' \<mapsto> [t], ''temp1_data'' \<mapsto> [p]],
      tensors = [Ins 0 \<mapsto> map (\<lambda>v. Some (FltV v)) x, Outs 0 \<mapsto> out]\<rparr>"

text \<open>The scratch values of a hardmax session: the running best value and its offset.\<close>

definition hm_allocs :: "scratch list" where
  "hm_allocs = [\<lparr>sc_dtype = ''float32'', sc_extent = [1], sc_name = ''temp_data'', sc_scope = ''local''\<rparr>,
                \<lparr>sc_dtype = ''int32'', sc_extent = [1], sc_name = ''temp1_data'', sc_scope = ''local''\<rparr>]"

text \<open>
  The invariant of the marking loops: among the groups already done, the winner of each
  holds 1.0; every other element holds 0.0.
\<close>

definition marked_upto ::
  "fval list \<Rightarrow> int \<Rightarrow> int \<Rightarrow> int \<Rightarrow> (int \<Rightarrow> int \<Rightarrow> bool) \<Rightarrow> val option list \<Rightarrow> bool" where
  "marked_upto x outer inner cnt done out \<longleftrightarrow>
     length out = nat (outer * inner * cnt) \<and>
     (\<forall>i j k. 0 \<le> i \<and> i < outer \<and> 0 \<le> j \<and> j < cnt \<and> 0 \<le> k \<and> k < inner \<longrightarrow>
        out ! nat (flat_offset inner cnt i j k)
          = Some (FltV (if done i k \<and> nat j = winner x inner cnt i k then Fin 1 else Fin 0)))"

section \<open>Proofs\<close>

subsection \<open>The tree that is built\<close>

lemmas builder_defs = create_def buffer_ptr_def allocate_def emit_def enter_scope_def exit_scope_def
  for_range_def if_scope_def store_def load_def store_scratch_def load_scratch_def get_def
  get_const_tuple_def

lemmas tree_defs = kernel_tree_def zero_fill_loop_def mark_loops_def group_body_def scan_loop_def
  scan_step_def flat_index_expr_def

lemma hardmax_kernel_cases:
  "hardmax_kernel data out_buf a =
     (let S = buf_shape data;
          ax = (if a = - 1 then int (length S) - 1 else a);
          outer = fold (\<lambda>(i, s) acc. if int i < ax then acc * s else acc) (enumerate 0 S) 1;
          inner = fold (\<lambda>(i, s) acc. if int i > ax then acc * s else acc) (enumerate 0 S) 1
      in case tuple_getitem S ax of
           Inl e \<Rightarrow> (Inl e, \<lparr>allocs = hm_allocs, scopes = [[zero_fill_loop (buf_id out_buf) (prod S)]]\<rparr>)
         | Inr cnt \<Rightarrow>
             (Inr (kernel_tree (buf_id data) (buf_id out_buf) (prod S) outer inner cnt),
              \<lparr>allocs = hm_allocs,
               scopes = [[zero_fill_loop (buf_id out_buf) (prod S),
                          mark_loops (buf_id data) (buf_id out_buf) outer inner cnt]]\<rparr>))"
  by (simp add: hardmax_kernel_def builder_defs tree_defs hm_allocs_def Let_def split: sum.split)

subsection \<open>Comparisons\<close>

lemma fgt_irrefl [simp]: "\<not> fgt a a"
  by (cases a) simp_all

lemma fgt_NegInf_iff: "fgt a NegInf \<longleftrightarrow> a \<noteq> NaN \<and> a \<noteq> NegInf"
  by (cases a) simp_all

lemma fge_fgt_trans: "fge a b \<Longrightarrow> fgt b c \<Longrightarrow> fgt a c"
  by (cases a; cases b; cases c) simp_all

lemma fgt_not_NaN: "fgt a b \<Longrightarrow> a \<noteq> NaN \<and> b \<noteq> NaN"
  by (cases a; cases b) simp_all

lemma fge_iff_not_fgt: "a \<noteq> NaN \<Longrightarrow> b \<noteq> NaN \<Longrightarrow> fge a b \<longleftrightarrow> \<not> fgt b a"
  by (cases a; cases b) simp_all

lemma fgt_one_zero [simp]: "fgt (Fin 1) (Fin 0)"
  by simp

subsection \<open>The scan as a function\<close>

lemma best_j_pos: "0 < n \<Longrightarrow> snd (best_j g n) < n"
proof (induction n)
  case 0
  then show ?case by simp
next
  case (Suc n)
  show ?case
  proof (cases n)
    case 0
    then show ?thesis by (simp split: prod.split)
  next
    case (Suc m)
    then have "snd (best_j g n) < n" using Suc.IH by simp
    then show ?thesis by (auto split: prod.split)
  qed
qed

lemma best_j_zero_pos: "snd (best_j g 0) = 0"
  by simp

text \<open>Either nothing has compared greater than negative infinity yet, or the best value
  is the element at the recorded position.\<close>

lemma best_j_shape:
  "(fst (best_j g n) = NegInf \<and> snd (best_j g n) = 0 \<and> (\<forall>j < n. \<not> fgt (g j) NegInf))
   \<or> (snd (best_j g n) < n \<and> fst (best_j g n) = g (snd (best_j g n))
        \<and> fgt (g (snd (best_j g n))) NegInf)"
proof (induction n)
  case 0
  then show ?case by simp
next
  case (Suc n)
  obtain b p where bp: "best_j g n = (b, p)" by (cases "best_j g n")
  show ?case
  proof (cases "fgt (g n) b")
    case True
    then have "fgt (g n) NegInf" by (cases "g n"; cases b) simp_all
    with True bp show ?thesis by simp
  next
    case False
    from Suc.IH bp
    consider (none) "b = NegInf" "p = 0" "\<forall>j < n. \<not> fgt (g j) NegInf"
      | (some) "p < n" "b = g p" "fgt (g p) NegInf" by auto
    then show ?thesis
    proof cases
      case none
      with False bp show ?thesis by (auto simp: less_Suc_eq)
    next
      case some
      with False bp show ?thesis by simp
    qed
  qed
qed

lemma best_j_unbeaten: "j < n \<Longrightarrow> \<not> fgt (g j) (fst (best_j g n))"
proof (induction n)
  case 0
  then show ?case by simp
next
  case (Suc n)
  obtain b p where bp: "best_j g n = (b, p)" by (cases "best_j g n")
  show ?case
  proof (cases "j = n")
    case True
    with bp show ?thesis by simp
  next
    case False
    then have jn: "j < n" using Suc.prems by simp
    then have nb: "\<not> fgt (g j) b" using Suc.IH bp by simp
    show ?thesis
    proof (cases "fgt (g n) b")
      case True
      have "\<not> fgt (g j) (g n)"
      proof
        assume "fgt (g j) (g n)"
        then have "fge (g j) (g n)" by (cases "g j"; cases "g n") simp_all
        then have "fgt (g j) b" using True by (rule fge_fgt_trans)
        with nb show False by simp
      qed
      with True bp show ?thesis by simp
    next
      case False
      with nb bp show ?thesis by simp
    qed
  qed
qed

lemma best_j_earlier: "j < snd (best_j g n) \<Longrightarrow> \<not> fge (g j) (g (snd (best_j g n)))"
proof (induction n)
  case 0
  then show ?case by simp
next
  case (Suc n)
  obtain b p where bp: "best_j g n = (b, p)" by (cases "best_j g n")
  show ?case
  proof (cases "fgt (g n) b")
    case True
    then have sn: "snd (best_j g (Suc n)) = n" using bp by simp
    then have jn: "j < n" using Suc.prems by simp
    have nb: "\<not> fgt (g j) b" using best_j_unbeaten [OF jn, of g] bp by simp
    have "\<not> fge (g j) (g n)"
    proof
      assume "fge (g j) (g n)"
      then have "fgt (g j) b" using True by (rule fge_fgt_trans)
      with nb show False by simp
    qed
    with sn show ?thesis by simp
  next
    case False
    then have "snd (best_j g (Suc n)) = p" using bp by simp
    with Suc bp show ?thesis by simp
  qed
qed

lemma best_j_first_max:
  assumes "0 < n"
  shows "first_max_at (map g [0..<n]) (snd (best_j g n))"
proof -
  let ?p = "snd (best_j g n)"
  have pn: "?p < n" using assms by (rule best_j_pos)
  have A: "\<not> fgt (g j) (g ?p)" if "j < n" for j
  proof -
    from best_j_shape [of g n]
    consider (none) "fst (best_j g n) = NegInf" "\<forall>j < n. \<not> fgt (g j) NegInf"
      | (some) "fst (best_j g n) = g ?p" by auto
    then show ?thesis
    proof cases
      case none
      then have "\<not> fgt (g j) NegInf" using that by simp
      then have "g j = NaN \<or> g j = NegInf" by (simp add: fgt_NegInf_iff)
      then show ?thesis by auto
    next
      case some
      then show ?thesis using best_j_unbeaten [OF that, of g] by simp
    qed
  qed
  have B: "\<not> fge (g j) (g ?p)" if "j < ?p" for j
    using that by (rule best_j_earlier)
  show ?thesis
    unfolding first_max_at_def using pn A B by auto
qed

lemma first_max_at_comparable:
  assumes "NaN \<notin> set ys" and "first_max_at ys j"
  shows "lowest_attaining_max ys j"
proof -
  have jl: "j < length ys" using assms(2) by (simp add: first_max_at_def)
  have nn: "ys ! i \<noteq> NaN" if "i < length ys" for i
    using assms(1) that by (metis nth_mem)
  have "fge (ys ! j) (ys ! j')" if "j' < length ys" for j'
    using assms(2) that nn [OF that] nn [OF jl]
    by (simp add: first_max_at_def fge_iff_not_fgt)
  then have am: "attains_max ys j" using jl by (simp add: attains_max_def)
  have "\<not> attains_max ys j'" if "j' < j" for j'
  proof
    assume "attains_max ys j'"
    then have "fge (ys ! j') (ys ! j)" using jl by (simp add: attains_max_def)
    moreover have "\<not> fge (ys ! j') (ys ! j)" using assms(2) that by (simp add: first_max_at_def)
    ultimately show False by simp
  qed
  with am show ?thesis by (simp add: lowest_attaining_max_def)
qed

text \<open>Scanning a one-hot group finds the position of the one.\<close>

lemma length_one_hot [simp]: "length (one_hot n w) = n"
  by (simp add: one_hot_def)

lemma one_hot_nth [simp]: "j < n \<Longrightarrow> one_hot n w ! j = (if j = w then Fin 1 else Fin 0)"
  by (simp add: one_hot_def)

lemma first_max_at_one_hot:
  assumes "w < n" and "first_max_at (one_hot n w) p"
  shows "p = w"
proof (rule ccontr)
  assume "p \<noteq> w"
  have pn: "p < n" using assms(2) by (simp add: first_max_at_def)
  have *: "\<not> fgt (one_hot n w ! j') (one_hot n w ! p)" if "j' < n" for j'
    using assms(2) that unfolding first_max_at_def length_one_hot by blast
  have "\<not> fgt (one_hot n w ! w) (one_hot n w ! p)"
    using assms(1) by (rule *)
  then show False using \<open>p \<noteq> w\<close> pn assms(1) by simp
qed

lemma fsum_zeros: "foldl fadd a (map (\<lambda>j. Fin 0) xs) = a"
  by (induction xs arbitrary: a) (simp_all, metis fadd.simps fval.exhaust add_0_right)

subsection \<open>Flat offsets\<close>

lemma two_digit_div:
  fixes a m r :: int
  assumes "0 \<le> r" "r < m"
  shows "(a * m + r) div m = a" and "(a * m + r) mod m = r"
  using assms by simp_all

lemma two_digit_unique:
  fixes a a' m r r' :: int
  assumes "0 \<le> r" "r < m" "0 \<le> r'" "r' < m" "a * m + r = a' * m + r'"
  shows "a = a' \<and> r = r'"
proof -
  have "(a * m + r) div m = a" "(a * m + r) mod m = r"
    using assms(1,2) by (rule two_digit_div)+
  moreover have "(a' * m + r') div m = a'" "(a' * m + r') mod m = r'"
    using assms(3,4) by (rule two_digit_div)+
  ultimately show ?thesis using assms(5) by simp
qed

lemma low_part_bounds:
  fixes j k inner cnt :: int
  assumes "0 \<le> j" "j < cnt" "0 \<le> k" "k < inner"
  shows "0 \<le> j * inner + k" and "j * inner + k < inner * cnt"
proof -
  have ip: "0 < inner" using assms by simp
  show "0 \<le> j * inner + k" using assms ip by simp
  have "j + 1 \<le> cnt" using assms by simp
  then have "(j + 1) * inner \<le> cnt * inner" using ip by (simp add: mult_right_mono)
  then show "j * inner + k < inner * cnt" using assms by (simp add: algebra_simps)
qed

lemma flat_offset_split: "flat_offset inner cnt i j k = i * (inner * cnt) + (j * inner + k)"
  by (simp add: flat_offset_def algebra_simps)

lemma flat_offset_bounds:
  assumes "0 \<le> i" "i < outer" "0 \<le> j" "j < cnt" "0 \<le> k" "k < inner"
  shows "0 \<le> flat_offset inner cnt i j k" and "flat_offset inner cnt i j k < outer * inner * cnt"
proof -
  have lo: "0 \<le> j * inner + k" and hi: "j * inner + k < inner * cnt"
    using assms(3-6) by (rule low_part_bounds)+
  have m: "0 < inner * cnt" using lo hi by simp
  show "0 \<le> flat_offset inner cnt i j k"
    using assms(1) lo m by (simp add: flat_offset_split)
  have "i + 1 \<le> outer" using assms by simp
  then have "(i + 1) * (inner * cnt) \<le> outer * (inner * cnt)" using m by (simp add: mult_right_mono)
  then show "flat_offset inner cnt i j k < outer * inner * cnt"
    using hi by (simp add: flat_offset_split algebra_simps)
qed

lemma flat_offset_inj:
  assumes "0 \<le> j" "j < cnt" "0 \<le> k" "k < inner"
      and "0 \<le> j'" "j' < cnt" "0 \<le> k'" "k' < inner"
      and "flat_offset inner cnt i j k = flat_offset inner cnt i' j' k'"
  shows "i = i' \<and> j = j' \<and> k = k'"
proof -
  have b: "0 \<le> j * inner + k" "j * inner + k < inner * cnt"
    using assms(1-4) by (rule low_part_bounds)+
  have b': "0 \<le> j' * inner + k'" "j' * inner + k' < inner * cnt"
    using assms(5-8) by (rule low_part_bounds)+
  have "i * (inner * cnt) + (j * inner + k) = i' * (inner * cnt) + (j' * inner + k')"
    using assms(9) by (simp add: flat_offset_split)
  then have 1: "i = i' \<and> j * inner + k = j' * inner + k'"
    using b b' by (intro two_digit_unique) auto
  then have "j = j' \<and> k = k'"
    using assms(3,4,7,8) by (intro two_digit_unique) auto
  with 1 show ?thesis by simp
qed

lemma flat_offset_surj:
  assumes "0 < inner" "0 < cnt" "0 \<le> q" "q < outer * inner * cnt"
  shows "\<exists>i j k. 0 \<le> i \<and> i < outer \<and> 0 \<le> j \<and> j < cnt \<and> 0 \<le> k \<and> k < inner
                \<and> q = flat_offset inner cnt i j k"
proof -
  let ?m = "inner * cnt"
  let ?i = "q div ?m" and ?r = "q mod ?m"
  let ?j = "?r div inner" and ?k = "?r mod inner"
  have m: "0 < ?m" using assms by simp
  have r: "0 \<le> ?r" "?r < ?m" using m by simp_all
  have i0: "0 \<le> ?i" using assms(3) m by (simp add: pos_imp_zdiv_nonneg_iff)
  have "q < outer * ?m" using assms(4) by (simp add: mult.assoc)
  moreover have "?i * ?m \<le> q"
  proof -
    have "q = ?i * ?m + ?r" by (rule div_mult_mod_eq [symmetric])
    then show ?thesis using r(1) by linarith
  qed
  ultimately have "?i * ?m < outer * ?m" by simp
  then have i1: "?i < outer" using m by (simp add: mult_less_cancel_right)
  have k: "0 \<le> ?k" "?k < inner" using assms(1) by simp_all
  have j0: "0 \<le> ?j" using r assms(1) by (simp add: pos_imp_zdiv_nonneg_iff)
  have "?r < cnt * inner" using r by (simp add: mult.commute)
  moreover have "?j * inner \<le> ?r"
  proof -
    have "?r = ?j * inner + ?k" by (rule div_mult_mod_eq [symmetric])
    then show ?thesis using k(1) by linarith
  qed
  ultimately have "?j * inner < cnt * inner" by simp
  then have j1: "?j < cnt" using assms(1) by (simp add: mult_less_cancel_right)
  have "q = ?i * ?m + ?r" by (rule div_mult_mod_eq [symmetric])
  also have "?r = ?j * inner + ?k" by (rule div_mult_mod_eq [symmetric])
  finally have "q = flat_offset inner cnt ?i ?j ?k" by (simp add: flat_offset_split)
  with i0 i1 j0 j1 k show ?thesis by blast
qed

subsection \<open>Running statements\<close>

lemma fold_exec_Inl:
  "fold (\<lambda>s r. case r of Inl er \<Rightarrow> Inl er | Inr m' \<Rightarrow> f s m') ss (Inl e) = Inl e"
  by (induction ss) simp_all

lemma exec_Seq_Nil: "exec (Seq []) m = Inr m"
  by simp

lemma exec_Seq_Cons:
  "exec (Seq (s # ss)) m = (case exec s m of Inl e \<Rightarrow> Inl e | Inr m' \<Rightarrow> exec (Seq ss) m')"
  by (cases "exec s m") (simp_all add: fold_exec_Inl)

lemma exec_Seq_single: "exec (Seq [s]) m = exec s m"
  by (cases "exec s m") simp_all

lemma exec_For_const:
  "exec (For v (IntConst a) (IntConst b) body) m =
     for_loop (\<lambda>i m'. case exec body (m'\<lparr>vars := (vars m')(v \<mapsto> i)\<rparr>) of
                         Inl er \<Rightarrow> Inl er
                       | Inr m'' \<Rightarrow> Inr (m''\<lparr>vars := vars m'\<rparr>)) a (nat (b - a)) m"
  by simp

subsection \<open>The memory of a run\<close>

lemma hm_mem_vars [simp]: "vars (hm_mem V t p x out) = V"
  by (simp add: hm_mem_def)

lemma hm_mem_set_vars [simp]: "(hm_mem V t p x out)\<lparr>vars := W\<rparr> = hm_mem W t p x out"
  by (simp add: hm_mem_def)

lemma hm_mem_temp [simp]: "scratches (hm_mem V t p x out) ''temp_data'' = Some [t]"
  by (simp add: hm_mem_def)

lemma hm_mem_temp1 [simp]: "scratches (hm_mem V t p x out) ''temp1_data'' = Some [p]"
  by (simp add: hm_mem_def)

lemma hm_mem_in [simp]: "tensors (hm_mem V t p x out) (Ins 0) = Some (map (\<lambda>v. Some (FltV v)) x)"
  by (simp add: hm_mem_def)

lemma hm_mem_out [simp]: "tensors (hm_mem V t p x out) (Outs 0) = Some out"
  by (simp add: hm_mem_def)

lemma hm_mem_set_temp [simp]:
  "(hm_mem V t p x out)\<lparr>scratches := (scratches (hm_mem V t p x out))(''temp_data'' \<mapsto> [t'])\<rparr>
     = hm_mem V t' p x out"
  by (auto simp: hm_mem_def fun_eq_iff)

lemma hm_mem_set_temp1 [simp]:
  "(hm_mem V t p x out)\<lparr>scratches := (scratches (hm_mem V t p x out))(''temp1_data'' \<mapsto> [p'])\<rparr>
     = hm_mem V t p' x out"
  by (auto simp: hm_mem_def fun_eq_iff)

lemma hm_mem_set_out [simp]:
  "(hm_mem V t p x out)\<lparr>tensors := (tensors (hm_mem V t p x out))(Outs 0 \<mapsto> out')\<rparr>
     = hm_mem V t p x out'"
  by (auto simp: hm_mem_def fun_eq_iff)

lemma exec_store_temp:
  "eval e (hm_mem V t p x out) = Inr v \<Longrightarrow>
   exec (ScratchStore ''temp_data'' (IntConst 0) e) (hm_mem V t p x out) = Inr (hm_mem V (Some v) p x out)"
  by (simp add: store_at_def)

lemma exec_store_temp1:
  "eval e (hm_mem V t p x out) = Inr v \<Longrightarrow>
   exec (ScratchStore ''temp1_data'' (IntConst 0) e) (hm_mem V t p x out) = Inr (hm_mem V t (Some v) x out)"
  by (simp add: store_at_def)

lemma exec_store_out:
  "eval ie (hm_mem V t p x out) = Inr (IntV n) \<Longrightarrow> 0 \<le> n \<Longrightarrow> n < int (length out) \<Longrightarrow>
   eval e (hm_mem V t p x out) = Inr v \<Longrightarrow>
   exec (BufStore (Outs 0) ie e) (hm_mem V t p x out) = Inr (hm_mem V t p x (out[nat n := Some v]))"
  by (simp add: store_at_def)

lemma eval_load_temp:
  "eval (ScratchLoad ''temp_data'' (IntConst 0)) (hm_mem V (Some v) p x out) = Inr v"
  by (simp add: load_at_def)

lemma eval_load_temp1:
  "eval (ScratchLoad ''temp1_data'' (IntConst 0)) (hm_mem V t (Some v) x out) = Inr v"
  by (simp add: load_at_def)

lemma eval_load_in:
  "eval e (hm_mem V t p x out) = Inr (IntV n) \<Longrightarrow> 0 \<le> n \<Longrightarrow> n < int (length x) \<Longrightarrow>
   eval (BufLoad (Ins 0) e) (hm_mem V t p x out) = Inr (FltV (x ! nat n))"
  by (simp add: load_at_def)

lemma eval_flat_index:
  "V ''i0'' = Some i \<Longrightarrow> V ''j'' = Some j \<Longrightarrow> V ''k'' = Some k \<Longrightarrow>
   eval (flat_index_expr inner cnt) (hm_mem V t p x out) = Inr (IntV (flat_offset inner cnt i j k))"
  by (simp add: flat_index_expr_def flat_offset_def)

lemma eval_group_base:
  "V ''i0'' = Some i \<Longrightarrow> V ''k'' = Some k \<Longrightarrow>
   eval (Add (Mul (Mul (Var ''i0'') (IntConst inner)) (IntConst cnt)) (Var ''k'')) (hm_mem V t p x out)
     = Inr (IntV (flat_offset inner cnt i 0 k))"
  by (simp add: flat_offset_def)

lemma exec_scan_step:
  assumes "V ''i0'' = Some i" "V ''j'' = Some j" "V ''k'' = Some k"
      and "0 \<le> flat_offset inner cnt i j k" "flat_offset inner cnt i j k < int (length x)"
  shows "exec (scan_step (Ins 0) inner cnt) (hm_mem V (Some (FltV b)) (Some (IntV q)) x out) =
           Inr (if fgt (x ! nat (flat_offset inner cnt i j k)) b
                then hm_mem V (Some (FltV (x ! nat (flat_offset inner cnt i j k))))
                              (Some (IntV (flat_offset inner cnt i j k))) x out
                else hm_mem V (Some (FltV b)) (Some (IntV q)) x out)"
proof -
  let ?m = "hm_mem V (Some (FltV b)) (Some (IntV q)) x out"
  let ?o = "flat_offset inner cnt i j k"
  have ld: "eval (BufLoad (Ins 0) (flat_index_expr inner cnt)) (hm_mem V t p x out) = Inr (FltV (x ! nat ?o))" for t p
    using assms(4,5) by (intro eval_load_in eval_flat_index assms(1-3))
  have c: "eval (GT (BufLoad (Ins 0) (flat_index_expr inner cnt)) (ScratchLoad ''temp_data'' (IntConst 0))) ?m
             = Inr (BoolV (fgt (x ! nat ?o) b))"
    using ld by (simp add: load_at_def)
  show ?thesis
  proof (cases "fgt (x ! nat ?o) b")
    case True
    have 1: "exec (ScratchStore ''temp1_data'' (IntConst 0) (flat_index_expr inner cnt)) ?m
               = Inr (hm_mem V (Some (FltV b)) (Some (IntV ?o)) x out)"
      using assms(1-3) by (intro exec_store_temp1 eval_flat_index)
    have 2: "exec (ScratchStore ''temp_data'' (IntConst 0) (BufLoad (Ins 0) (flat_index_expr inner cnt)))
                  (hm_mem V (Some (FltV b)) (Some (IntV ?o)) x out)
               = Inr (hm_mem V (Some (FltV (x ! nat ?o))) (Some (IntV ?o)) x out)"
      by (intro exec_store_temp ld)
    show ?thesis
      unfolding scan_step_def using True c 1 2
      by (simp only: exec.simps(3) exec_Seq_Cons exec_Seq_Nil sum.case val.case bool.case if_True)
  next
    case False
    show ?thesis
      unfolding scan_step_def using False c
      by (simp only: exec.simps(3) sum.case val.case bool.case if_False option.case)
  qed
qed

lemma for_loop_Suc_eq:
  "for_loop f a n m = Inr m' \<Longrightarrow> f (a + int n) m' = r \<Longrightarrow> for_loop f a (Suc n) m = r"
  by simp

subsection \<open>The scan loop\<close>

lemma scan_loop_iterations:
  assumes V: "V ''i0'' = Some i" "V ''k'' = Some k"
      and inb: "\<And>j. j < nat cnt \<Longrightarrow>
                  0 \<le> flat_offset inner cnt i (int j) k \<and> flat_offset inner cnt i (int j) k < int (length x)"
      and n: "n \<le> nat cnt"
  shows "for_loop (\<lambda>j m'. case exec (Seq [scan_step (Ins 0) inner cnt]) (m'\<lparr>vars := (vars m')(''j'' \<mapsto> j)\<rparr>) of
                             Inl er \<Rightarrow> Inl er
                           | Inr m'' \<Rightarrow> Inr (m''\<lparr>vars := vars m'\<rparr>)) 0 n
           (hm_mem V (Some (FltV NegInf)) (Some (IntV (flat_offset inner cnt i 0 k))) x out)
         = Inr (hm_mem V
                  (Some (FltV (fst (best_j (\<lambda>j. x ! nat (flat_offset inner cnt i (int j) k)) n))))
                  (Some (IntV (flat_offset inner cnt i
                     (int (snd (best_j (\<lambda>j. x ! nat (flat_offset inner cnt i (int j) k)) n))) k)))
                  x out)"
  using n
proof (induction n)
  case 0
  then show ?case by simp
next
  case (Suc n)
  let ?g = "\<lambda>j. x ! nat (flat_offset inner cnt i (int j) k)"
  obtain b p where bp: "best_j ?g n = (b, p)" by (cases "best_j ?g n")
  let ?W = "V(''j'' \<mapsto> int n)"
  have W: "?W ''i0'' = Some i" "?W ''j'' = Some (int n)" "?W ''k'' = Some k"
    using V by simp_all
  have nb: "n < nat cnt" using Suc.prems by simp
  have step: "exec (scan_step (Ins 0) inner cnt)
                (hm_mem ?W (Some (FltV b)) (Some (IntV (flat_offset inner cnt i (int p) k))) x out)
              = Inr (if fgt (?g n) b
                     then hm_mem ?W (Some (FltV (?g n))) (Some (IntV (flat_offset inner cnt i (int n) k))) x out
                     else hm_mem ?W (Some (FltV b)) (Some (IntV (flat_offset inner cnt i (int p) k))) x out)"
    using W inb [OF nb] by (intro exec_scan_step) auto
  have "n \<le> nat cnt" using Suc.prems by simp
  note IH = Suc.IH [OF this]
  show ?case
  proof (rule for_loop_Suc_eq [OF IH])
    show "(case exec (Seq [scan_step (Ins 0) inner cnt])
                 ((hm_mem V (Some (FltV (fst (best_j ?g n))))
                     (Some (IntV (flat_offset inner cnt i (int (snd (best_j ?g n))) k))) x out)
                  \<lparr>vars := (vars (hm_mem V (Some (FltV (fst (best_j ?g n))))
                     (Some (IntV (flat_offset inner cnt i (int (snd (best_j ?g n))) k))) x out))
                     (''j'' \<mapsto> 0 + int n)\<rparr>) of
            Inl er \<Rightarrow> Inl er
          | Inr m'' \<Rightarrow> Inr (m''\<lparr>vars := vars (hm_mem V (Some (FltV (fst (best_j ?g n))))
                     (Some (IntV (flat_offset inner cnt i (int (snd (best_j ?g n))) k))) x out)\<rparr>))
          = Inr (hm_mem V (Some (FltV (fst (best_j ?g (Suc n)))))
                  (Some (IntV (flat_offset inner cnt i (int (snd (best_j ?g (Suc n)))) k))) x out)"
      using bp step by (simp add: exec_Seq_single del: exec.simps)
  qed
qed

lemma exec_scan_loop:
  assumes "V ''i0'' = Some i" "V ''k'' = Some k"
      and "\<And>j. j < nat cnt \<Longrightarrow>
             0 \<le> flat_offset inner cnt i (int j) k \<and> flat_offset inner cnt i (int j) k < int (length x)"
  shows "exec (scan_loop (Ins 0) inner cnt)
           (hm_mem V (Some (FltV NegInf)) (Some (IntV (flat_offset inner cnt i 0 k))) x out)
         = Inr (hm_mem V
                  (Some (FltV (fst (best_j (\<lambda>j. x ! nat (flat_offset inner cnt i (int j) k)) (nat cnt)))))
                  (Some (IntV (flat_offset inner cnt i (int (winner x inner cnt i k)) k)))
                  x out)"
  unfolding scan_loop_def exec_For_const winner_def
  using scan_loop_iterations [OF assms, of "nat cnt" out] by simp

subsection \<open>One axis group\<close>

lemma exec_group_body:
  assumes V: "V ''i0'' = Some i" "V ''k'' = Some k"
      and inb: "\<And>j. j < nat cnt \<Longrightarrow>
             0 \<le> flat_offset inner cnt i (int j) k \<and> flat_offset inner cnt i (int j) k < int (length x)"
      and w: "0 \<le> flat_offset inner cnt i (int (winner x inner cnt i k)) k"
             "flat_offset inner cnt i (int (winner x inner cnt i k)) k < int (length out)"
  shows "\<exists>t' p'. exec (group_body (Ins 0) (Outs 0) inner cnt) (hm_mem V t p x out)
           = Inr (hm_mem V t' p' x
                    (out[nat (flat_offset inner cnt i (int (winner x inner cnt i k)) k) := Some (FltV (Fin 1))]))"
proof -
  let ?w = "flat_offset inner cnt i (int (winner x inner cnt i k)) k"
  let ?b = "fst (best_j (\<lambda>j. x ! nat (flat_offset inner cnt i (int j) k)) (nat cnt))"
  have 1: "exec (ScratchStore ''temp_data'' (IntConst 0) (FloatConst NegInf)) (hm_mem V t p x out)
             = Inr (hm_mem V (Some (FltV NegInf)) p x out)"
    by (intro exec_store_temp) simp
  have 2: "exec (ScratchStore ''temp1_data'' (IntConst 0)
                   (Add (Mul (Mul (Var ''i0'') (IntConst inner)) (IntConst cnt)) (Var ''k'')))
                (hm_mem V (Some (FltV NegInf)) p x out)
             = Inr (hm_mem V (Some (FltV NegInf)) (Some (IntV (flat_offset inner cnt i 0 k))) x out)"
    using V by (intro exec_store_temp1 eval_group_base)
  have 3: "exec (scan_loop (Ins 0) inner cnt)
                (hm_mem V (Some (FltV NegInf)) (Some (IntV (flat_offset inner cnt i 0 k))) x out)
             = Inr (hm_mem V (Some (FltV ?b)) (Some (IntV ?w)) x out)"
    using V inb by (rule exec_scan_loop)
  have 4: "exec (BufStore (Outs 0) (ScratchLoad ''temp1_data'' (IntConst 0)) (FloatConst (Fin 1)))
                (hm_mem V (Some (FltV ?b)) (Some (IntV ?w)) x out)
             = Inr (hm_mem V (Some (FltV ?b)) (Some (IntV ?w)) x (out[nat ?w := Some (FltV (Fin 1))]))"
    using w by (intro exec_store_out eval_load_temp1) simp_all
  have "exec (group_body (Ins 0) (Outs 0) inner cnt) (hm_mem V t p x out)
          = Inr (hm_mem V (Some (FltV ?b)) (Some (IntV ?w)) x (out[nat ?w := Some (FltV (Fin 1))]))"
    unfolding group_body_def using 1 2 3 4
    by (simp only: exec_Seq_Cons exec_Seq_Nil sum.case)
  then show ?thesis by blast
qed

subsection \<open>The zero fill\<close>

lemma replicate_fill_step:
  "n < N \<Longrightarrow> (replicate n a @ replicate (N - n) b)[n := a] = replicate (Suc n) a @ replicate (N - Suc n) b"
proof -
  assume "n < N"
  then have "N - n = Suc (N - Suc n)" by simp
  then have "(replicate n a @ replicate (N - n) b)[n := a]
               = (replicate n a @ b # replicate (N - Suc n) b)[length (replicate n a) := a]" by simp
  also have "\<dots> = replicate n a @ a # replicate (N - Suc n) b" by (rule list_update_length)
  also have "\<dots> = replicate (Suc n) a @ replicate (N - Suc n) b" by (simp add: replicate_app_Cons_same)
  finally show ?thesis .
qed

lemma zero_fill_iterations:
  assumes "n \<le> N"
  shows "for_loop (\<lambda>i m'. case exec (Seq [BufStore (Outs 0) (Var ''i'') (FloatConst (Fin 0))])
                                  (m'\<lparr>vars := (vars m')(''i'' \<mapsto> i)\<rparr>) of
                             Inl er \<Rightarrow> Inl er
                           | Inr m'' \<Rightarrow> Inr (m''\<lparr>vars := vars m'\<rparr>)) 0 n
           (hm_mem V t p x (replicate N None))
         = Inr (hm_mem V t p x (replicate n (Some (FltV (Fin 0))) @ replicate (N - n) None))"
  using assms
proof (induction n)
  case 0
  then show ?case by simp
next
  case (Suc n)
  let ?cur = "replicate n (Some (FltV (Fin 0))) @ replicate (N - n) None"
  have nN: "n < N" using Suc.prems by simp
  have st: "exec (BufStore (Outs 0) (Var ''i'') (FloatConst (Fin 0)))
              (hm_mem (V(''i'' \<mapsto> int n)) t p x ?cur)
            = Inr (hm_mem (V(''i'' \<mapsto> int n)) t p x (?cur[nat (int n) := Some (FltV (Fin 0))]))"
    using nN by (intro exec_store_out) simp_all
  have "n \<le> N" using nN by simp
  note IH = Suc.IH [OF this]
  show ?case
  proof (rule for_loop_Suc_eq [OF IH])
    show "(case exec (Seq [BufStore (Outs 0) (Var ''i'') (FloatConst (Fin 0))])
                 ((hm_mem V t p x ?cur)\<lparr>vars := (vars (hm_mem V t p x ?cur))(''i'' \<mapsto> 0 + int n)\<rparr>) of
            Inl er \<Rightarrow> Inl er
          | Inr m'' \<Rightarrow> Inr (m''\<lparr>vars := vars (hm_mem V t p x ?cur)\<rparr>))
          = Inr (hm_mem V t p x (replicate (Suc n) (Some (FltV (Fin 0))) @ replicate (N - Suc n) None))"
      using st replicate_fill_step [OF nN, of "Some (FltV (Fin 0))" None]
      by (simp add: exec_Seq_single del: exec.simps replicate.simps)
  qed
qed

lemma exec_zero_fill:
  "exec (zero_fill_loop (Outs 0) N) (hm_mem V t p x (replicate (nat N) None))
     = Inr (hm_mem V t p x (replicate (nat N) (Some (FltV (Fin 0)))))"
  unfolding zero_fill_loop_def exec_For_const
  using zero_fill_iterations [of "nat N" "nat N" V t p x] by simp

subsection \<open>The invariant of the marking loops\<close>

lemma winner_less: "0 < cnt \<Longrightarrow> int (winner x inner cnt i k) < cnt"
proof -
  assume "0 < cnt"
  then have "0 < nat cnt" by simp
  then have "winner x inner cnt i k < nat cnt"
    unfolding winner_def by (rule best_j_pos)
  then show ?thesis by simp
qed

lemma marked_upto_init:
  "marked_upto x outer inner cnt (\<lambda>i k. False)
     (replicate (nat (outer * inner * cnt)) (Some (FltV (Fin 0))))"
proof -
  have "replicate (nat (outer * inner * cnt)) (Some (FltV (Fin 0))) ! nat (flat_offset inner cnt i j k)
          = Some (FltV (Fin 0))"
    if "0 \<le> i" "i < outer" "0 \<le> j" "j < cnt" "0 \<le> k" "k < inner" for i j k
  proof -
    have "0 \<le> flat_offset inner cnt i j k" "flat_offset inner cnt i j k < outer * inner * cnt"
      using that by (rule flat_offset_bounds)+
    then have "nat (flat_offset inner cnt i j k) < nat (outer * inner * cnt)" by simp
    then show ?thesis by simp
  qed
  then show ?thesis by (simp add: marked_upto_def)
qed

lemma marked_upto_cong:
  assumes "marked_upto x outer inner cnt d out"
      and "\<And>i k. 0 \<le> i \<Longrightarrow> i < outer \<Longrightarrow> 0 \<le> k \<Longrightarrow> k < inner \<Longrightarrow> d i k = d' i k"
  shows "marked_upto x outer inner cnt d' out"
  using assms unfolding marked_upto_def by auto

lemma marked_upto_step:
  assumes m: "marked_upto x outer inner cnt d out"
      and r: "0 \<le> i" "i < outer" "0 \<le> k" "k < inner" "0 < cnt"
      and nd: "\<not> d i k"
  shows "marked_upto x outer inner cnt (\<lambda>i' k'. d i' k' \<or> (i' = i \<and> k' = k))
           (out[nat (flat_offset inner cnt i (int (winner x inner cnt i k)) k) := Some (FltV (Fin 1))])"
proof -
  let ?w = "int (winner x inner cnt i k)"
  let ?qw = "flat_offset inner cnt i ?w k"
  let ?out' = "out[nat ?qw := Some (FltV (Fin 1))]"
  have w: "0 \<le> ?w" "?w < cnt" using r(5) by (simp_all add: winner_less)
  have len: "length out = nat (outer * inner * cnt)" using m by (simp add: marked_upto_def)
  have qw: "0 \<le> ?qw" "?qw < outer * inner * cnt"
    using r(1,2) w r(3,4) by (rule flat_offset_bounds)+
  have "?out' ! nat (flat_offset inner cnt i' j' k')
          = Some (FltV (if (d i' k' \<or> (i' = i \<and> k' = k)) \<and> nat j' = winner x inner cnt i' k'
                        then Fin 1 else Fin 0))"
    if r': "0 \<le> i'" "i' < outer" "0 \<le> j'" "j' < cnt" "0 \<le> k'" "k' < inner" for i' j' k'
  proof -
    let ?q = "flat_offset inner cnt i' j' k'"
    have q: "0 \<le> ?q" "?q < outer * inner * cnt"
      using r' by (rule flat_offset_bounds)+
    have old: "out ! nat ?q = Some (FltV (if d i' k' \<and> nat j' = winner x inner cnt i' k' then Fin 1 else Fin 0))"
      using m r' by (simp add: marked_upto_def)
    have ql: "nat ?q < length out" using q len by simp
    show ?thesis
    proof (cases "?q = ?qw")
      case True
      then have e: "i' = i \<and> j' = ?w \<and> k' = k"
        using r'(3-6) w r(3,4) by (intro flat_offset_inj) auto
      then have "?out' ! nat ?q = Some (FltV (Fin 1))" using ql by simp
      then show ?thesis using e by simp
    next
      case False
      then have ne: "nat ?qw \<noteq> nat ?q" using q qw by simp
      then have same: "?out' ! nat ?q = out ! nat ?q" by simp
      show ?thesis
      proof (cases "i' = i \<and> k' = k")
        case True
        then have "j' \<noteq> ?w" using False by auto
        then have "nat j' \<noteq> winner x inner cnt i k" using r'(3) by auto
        then show ?thesis using same old True nd by simp
      next
        case False
        then show ?thesis using same old by auto
      qed
    qed
  qed
  then show ?thesis using len by (simp add: marked_upto_def)
qed

subsection \<open>The marking loops\<close>

lemma inner_loop_iterations:
  assumes V: "V ''i0'' = Some i"
      and r: "0 \<le> i" "i < outer" "0 < cnt"
      and lx: "length x = nat (outer * inner * cnt)"
      and m0: "marked_upto x outer inner cnt (\<lambda>i' k'. i' < i) out"
      and n: "n \<le> nat inner"
  shows "\<exists>t' p' out'.
           for_loop (\<lambda>k m'. case exec (group_body (Ins 0) (Outs 0) inner cnt)
                                    (m'\<lparr>vars := (vars m')(''k'' \<mapsto> k)\<rparr>) of
                               Inl er \<Rightarrow> Inl er
                             | Inr m'' \<Rightarrow> Inr (m''\<lparr>vars := vars m'\<rparr>)) 0 n (hm_mem V t p x out)
             = Inr (hm_mem V t' p' x out')
           \<and> marked_upto x outer inner cnt (\<lambda>i' k'. i' < i \<or> (i' = i \<and> k' < int n)) out'"
  using n
proof (induction n)
  case 0
  have "marked_upto x outer inner cnt (\<lambda>i' k'. i' < i \<or> (i' = i \<and> k' < int 0)) out"
    using m0 by (rule marked_upto_cong) auto
  then show ?case by auto
next
  case (Suc n)
  have nn: "n \<le> nat inner" and kn: "int n < inner" using Suc.prems by simp_all
  from Suc.IH [OF nn] obtain t' p' out' where
    run: "for_loop (\<lambda>k m'. case exec (group_body (Ins 0) (Outs 0) inner cnt)
                                    (m'\<lparr>vars := (vars m')(''k'' \<mapsto> k)\<rparr>) of
                               Inl er \<Rightarrow> Inl er
                             | Inr m'' \<Rightarrow> Inr (m''\<lparr>vars := vars m'\<rparr>)) 0 n (hm_mem V t p x out)
             = Inr (hm_mem V t' p' x out')"
    and mk: "marked_upto x outer inner cnt (\<lambda>i' k'. i' < i \<or> (i' = i \<and> k' < int n)) out'"
    by blast
  let ?W = "V(''k'' \<mapsto> int n)"
  let ?w = "int (winner x inner cnt i (int n))"
  let ?qw = "flat_offset inner cnt i ?w (int n)"
  have W: "?W ''i0'' = Some i" "?W ''k'' = Some (int n)" using V by simp_all
  have lo: "length out' = nat (outer * inner * cnt)" using mk by (simp add: marked_upto_def)
  have inb: "0 \<le> flat_offset inner cnt i (int j) (int n) \<and>
             flat_offset inner cnt i (int j) (int n) < int (length x)" if "j < nat cnt" for j
  proof -
    have "0 \<le> flat_offset inner cnt i (int j) (int n)"
         "flat_offset inner cnt i (int j) (int n) < outer * inner * cnt"
      using r(1,2) that kn by (intro flat_offset_bounds; simp)+
    then show ?thesis using lx by simp
  qed
  have w: "0 \<le> ?w" "?w < cnt" using r(3) by (simp_all add: winner_less)
  have qw: "0 \<le> ?qw" "?qw < outer * inner * cnt"
    using r(1,2) w kn by (intro flat_offset_bounds; simp)+
  then have qwl: "?qw < int (length out')" using lo by simp
  from exec_group_body [of ?W i "int n" cnt inner x out' t' p', OF W inb qw(1) qwl]
  obtain t'' p'' where
    body: "exec (group_body (Ins 0) (Outs 0) inner cnt) (hm_mem ?W t' p' x out')
             = Inr (hm_mem ?W t'' p'' x (out'[nat ?qw := Some (FltV (Fin 1))]))"
    by blast
  have "marked_upto x outer inner cnt
          (\<lambda>i' k'. (i' < i \<or> (i' = i \<and> k' < int n)) \<or> (i' = i \<and> k' = int n))
          (out'[nat ?qw := Some (FltV (Fin 1))])"
    using mk r(1,2) _ kn r(3) by (rule marked_upto_step) simp_all
  then have mk': "marked_upto x outer inner cnt (\<lambda>i' k'. i' < i \<or> (i' = i \<and> k' < int (Suc n)))
          (out'[nat ?qw := Some (FltV (Fin 1))])"
    by (rule marked_upto_cong) auto
  have "for_loop (\<lambda>k m'. case exec (group_body (Ins 0) (Outs 0) inner cnt)
                                    (m'\<lparr>vars := (vars m')(''k'' \<mapsto> k)\<rparr>) of
                               Inl er \<Rightarrow> Inl er
                             | Inr m'' \<Rightarrow> Inr (m''\<lparr>vars := vars m'\<rparr>)) 0 (Suc n) (hm_mem V t p x out)
          = Inr (hm_mem V t'' p'' x (out'[nat ?qw := Some (FltV (Fin 1))]))"
  proof (rule for_loop_Suc_eq [OF run])
    show "(case exec (group_body (Ins 0) (Outs 0) inner cnt)
                 ((hm_mem V t' p' x out')\<lparr>vars := (vars (hm_mem V t' p' x out'))(''k'' \<mapsto> 0 + int n)\<rparr>) of
            Inl er \<Rightarrow> Inl er
          | Inr m'' \<Rightarrow> Inr (m''\<lparr>vars := vars (hm_mem V t' p' x out')\<rparr>))
          = Inr (hm_mem V t'' p'' x (out'[nat ?qw := Some (FltV (Fin 1))]))"
      using body by (simp del: exec.simps)
  qed
  with mk' show ?case by blast
qed

lemma exec_inner_loop:
  assumes "V ''i0'' = Some i" "0 \<le> i" "i < outer" "0 < cnt"
      and "length x = nat (outer * inner * cnt)"
      and "marked_upto x outer inner cnt (\<lambda>i' k'. i' < i) out"
  shows "\<exists>t' p' out'.
           exec (For ''k'' (IntConst 0) (IntConst inner) (group_body (Ins 0) (Outs 0) inner cnt))
                (hm_mem V t p x out)
             = Inr (hm_mem V t' p' x out')
           \<and> marked_upto x outer inner cnt (\<lambda>i' k'. i' < i + 1) out'"
proof -
  have "nat inner \<le> nat inner" by simp
  from inner_loop_iterations [where V = V and i = i and n = "nat inner" and t = t and p = p, OF assms this]
  obtain t' p' out' where
    run: "for_loop (\<lambda>k m'. case exec (group_body (Ins 0) (Outs 0) inner cnt)
                                    (m'\<lparr>vars := (vars m')(''k'' \<mapsto> k)\<rparr>) of
                               Inl er \<Rightarrow> Inl er
                             | Inr m'' \<Rightarrow> Inr (m''\<lparr>vars := vars m'\<rparr>)) 0 (nat inner) (hm_mem V t p x out)
             = Inr (hm_mem V t' p' x out')"
    and mk: "marked_upto x outer inner cnt (\<lambda>i' k'. i' < i \<or> (i' = i \<and> k' < int (nat inner))) out'"
    by blast
  have "marked_upto x outer inner cnt (\<lambda>i' k'. i' < i + 1) out'"
    using mk by (rule marked_upto_cong) auto
  moreover have "exec (For ''k'' (IntConst 0) (IntConst inner) (group_body (Ins 0) (Outs 0) inner cnt))
                (hm_mem V t p x out) = Inr (hm_mem V t' p' x out')"
    unfolding exec_For_const using run by simp
  ultimately show ?thesis by blast
qed

lemma outer_loop_iterations:
  assumes r: "0 < cnt"
      and lx: "length x = nat (outer * inner * cnt)"
      and m0: "marked_upto x outer inner cnt (\<lambda>i' k'. False) out"
      and n: "n \<le> nat outer"
  shows "\<exists>t' p' out'.
           for_loop (\<lambda>i m'. case exec (Seq [For ''k'' (IntConst 0) (IntConst inner)
                                              (group_body (Ins 0) (Outs 0) inner cnt)])
                                    (m'\<lparr>vars := (vars m')(''i0'' \<mapsto> i)\<rparr>) of
                               Inl er \<Rightarrow> Inl er
                             | Inr m'' \<Rightarrow> Inr (m''\<lparr>vars := vars m'\<rparr>)) 0 n (hm_mem V t p x out)
             = Inr (hm_mem V t' p' x out')
           \<and> marked_upto x outer inner cnt (\<lambda>i' k'. i' < int n) out'"
  using n
proof (induction n)
  case 0
  have "marked_upto x outer inner cnt (\<lambda>i' k'. i' < int 0) out"
    using m0 by (rule marked_upto_cong) auto
  then show ?case by auto
next
  case (Suc n)
  have nn: "n \<le> nat outer" and no: "int n < outer" using Suc.prems by simp_all
  from Suc.IH [OF nn] obtain t' p' out' where
    run: "for_loop (\<lambda>i m'. case exec (Seq [For ''k'' (IntConst 0) (IntConst inner)
                                              (group_body (Ins 0) (Outs 0) inner cnt)])
                                    (m'\<lparr>vars := (vars m')(''i0'' \<mapsto> i)\<rparr>) of
                               Inl er \<Rightarrow> Inl er
                             | Inr m'' \<Rightarrow> Inr (m''\<lparr>vars := vars m'\<rparr>)) 0 n (hm_mem V t p x out)
             = Inr (hm_mem V t' p' x out')"
    and mk: "marked_upto x outer inner cnt (\<lambda>i' k'. i' < int n) out'"
    by blast
  let ?W = "V(''i0'' \<mapsto> int n)"
  have W: "?W ''i0'' = Some (int n)" by simp
  have n0: "0 \<le> int n" by simp
  from exec_inner_loop [where V = ?W and i = "int n" and t = t' and p = p', OF W n0 no r lx mk]
  obtain t'' p'' out'' where
    body: "exec (For ''k'' (IntConst 0) (IntConst inner) (group_body (Ins 0) (Outs 0) inner cnt))
                (hm_mem ?W t' p' x out') = Inr (hm_mem ?W t'' p'' x out'')"
    and mk': "marked_upto x outer inner cnt (\<lambda>i' k'. i' < int n + 1) out''"
    by auto
  have mk'': "marked_upto x outer inner cnt (\<lambda>i' k'. i' < int (Suc n)) out''"
    using mk' by (rule marked_upto_cong) auto
  have "for_loop (\<lambda>i m'. case exec (Seq [For ''k'' (IntConst 0) (IntConst inner)
                                              (group_body (Ins 0) (Outs 0) inner cnt)])
                                    (m'\<lparr>vars := (vars m')(''i0'' \<mapsto> i)\<rparr>) of
                               Inl er \<Rightarrow> Inl er
                             | Inr m'' \<Rightarrow> Inr (m''\<lparr>vars := vars m'\<rparr>)) 0 (Suc n) (hm_mem V t p x out)
          = Inr (hm_mem V t'' p'' x out'')"
  proof (rule for_loop_Suc_eq [OF run])
    show "(case exec (Seq [For ''k'' (IntConst 0) (IntConst inner)
                             (group_body (Ins 0) (Outs 0) inner cnt)])
                 ((hm_mem V t' p' x out')\<lparr>vars := (vars (hm_mem V t' p' x out'))(''i0'' \<mapsto> 0 + int n)\<rparr>) of
            Inl er \<Rightarrow> Inl er
          | Inr m'' \<Rightarrow> Inr (m''\<lparr>vars := vars (hm_mem V t' p' x out')\<rparr>))
          = Inr (hm_mem V t'' p'' x out'')"
      using body by (simp add: exec_Seq_single del: exec.simps)
  qed
  with mk'' show ?case by blast
qed

lemma exec_mark_loops:
  assumes "0 < cnt"
      and "length x = nat (outer * inner * cnt)"
      and "marked_upto x outer inner cnt (\<lambda>i' k'. False) out"
  shows "\<exists>t' p' out'.
           exec (mark_loops (Ins 0) (Outs 0) outer inner cnt) (hm_mem V t p x out)
             = Inr (hm_mem V t' p' x out')
           \<and> marked_upto x outer inner cnt (\<lambda>i' k'. True) out'"
proof -
  have "nat outer \<le> nat outer" by simp
  from outer_loop_iterations [where n = "nat outer" and V = V and t = t and p = p, OF assms this]
  obtain t' p' out' where
    run: "for_loop (\<lambda>i m'. case exec (Seq [For ''k'' (IntConst 0) (IntConst inner)
                                              (group_body (Ins 0) (Outs 0) inner cnt)])
                                    (m'\<lparr>vars := (vars m')(''i0'' \<mapsto> i)\<rparr>) of
                               Inl er \<Rightarrow> Inl er
                             | Inr m'' \<Rightarrow> Inr (m''\<lparr>vars := vars m'\<rparr>)) 0 (nat outer) (hm_mem V t p x out)
             = Inr (hm_mem V t' p' x out')"
    and mk: "marked_upto x outer inner cnt (\<lambda>i' k'. i' < int (nat outer)) out'"
    by blast
  have "marked_upto x outer inner cnt (\<lambda>i' k'. True) out'"
    using mk by (rule marked_upto_cong) auto
  moreover have "exec (mark_loops (Ins 0) (Outs 0) outer inner cnt) (hm_mem V t p x out)
                   = Inr (hm_mem V t' p' x out')"
    unfolding mark_loops_def exec_For_const using run by simp
  ultimately show ?thesis by blast
qed

lemma exec_kernel_tree:
  assumes "0 < cnt"
      and "length x = nat (outer * inner * cnt)"
  shows "\<exists>t' p' out'.
           exec (kernel_tree (Ins 0) (Outs 0) (outer * inner * cnt) outer inner cnt)
                (hm_mem V t p x (replicate (nat (outer * inner * cnt)) None))
             = Inr (hm_mem V t' p' x out')
           \<and> marked_upto x outer inner cnt (\<lambda>i' k'. True) out'"
proof -
  let ?N = "outer * inner * cnt"
  have z: "exec (zero_fill_loop (Outs 0) ?N) (hm_mem V t p x (replicate (nat ?N) None))
             = Inr (hm_mem V t p x (replicate (nat ?N) (Some (FltV (Fin 0)))))"
    by (rule exec_zero_fill)
  from exec_mark_loops [where V = V and t = t and p = p, OF assms marked_upto_init]
  obtain t' p' out' where
    mk: "exec (mark_loops (Ins 0) (Outs 0) outer inner cnt)
              (hm_mem V t p x (replicate (nat ?N) (Some (FltV (Fin 0)))))
           = Inr (hm_mem V t' p' x out')"
    and inv: "marked_upto x outer inner cnt (\<lambda>i' k'. True) out'"
    by blast
  have "exec (kernel_tree (Ins 0) (Outs 0) ?N outer inner cnt)
             (hm_mem V t p x (replicate (nat ?N) None)) = Inr (hm_mem V t' p' x out')"
    unfolding kernel_tree_def using z mk
    by (simp only: exec_Seq_Cons exec_Seq_Nil sum.case)
  with inv show ?thesis by blast
qed

lemma fold_enum_lt:
  "0 \<le> a \<Longrightarrow> fold (\<lambda>(i, s) acc. if int i < a then acc * s else acc) (enumerate n xs) acc
     = acc * prod_list (take (nat a - n) xs)"
proof (induction xs arbitrary: n acc)
  case Nil
  then show ?case by simp
next
  case (Cons y ys)
  show ?case
  proof (cases "int n < a")
    case True
    then have "nat a - n = Suc (nat a - Suc n)" using Cons.prems by linarith
    then show ?thesis using True Cons by (simp add: mult.assoc)
  next
    case False
    then have "nat a - n = 0" "nat a - Suc n = 0" by linarith+
    then show ?thesis using False Cons by simp
  qed
qed

lemma fold_enum_gt:
  "0 \<le> a \<Longrightarrow> fold (\<lambda>(i, s) acc. if int i > a then acc * s else acc) (enumerate n xs) acc
     = acc * prod_list (drop (nat a + 1 - n) xs)"
proof (induction xs arbitrary: n acc)
  case Nil
  then show ?case by simp
next
  case (Cons y ys)
  show ?case
  proof (cases "int n > a")
    case True
    then have "nat a + 1 - n = 0" "nat a + 1 - Suc n = 0" using Cons.prems by linarith+
    then show ?thesis using True Cons by (simp add: mult.assoc)
  next
    case False
    then have "nat a + 1 - n = Suc (nat a + 1 - Suc n)" using Cons.prems by linarith
    then show ?thesis using False Cons by simp
  qed
qed

lemma prod_prod_list: "fold (\<lambda>d acc. acc * d) s acc = acc * prod_list s"
  by (induction s arbitrary: acc) (simp_all add: mult.assoc)

lemma prod_eq: "prod s = prod_list s"
  by (simp add: prod_def prod_prod_list)

lemma prod_list_split:
  "n < length (S::int list) \<Longrightarrow> prod_list S = prod_list (take n S) * S ! n * prod_list (drop (Suc n) S)"
proof -
  assume "n < length S"
  then have "S = take n S @ S ! n # drop (Suc n) S" by (rule id_take_nth_drop)
  then have "prod_list S = prod_list (take n S @ S ! n # drop (Suc n) S)" by simp
  then show ?thesis by (simp add: mult.assoc)
qed

lemma prod_list_pos: "\<forall>d \<in> set (S::int list). 0 < d \<Longrightarrow> 0 < prod_list S"
  by (induction S) simp_all

subsection \<open>From the operator to the run\<close>

lemma spec_sizes_pos:
  assumes "\<forall>d \<in> set S. 0 < d" "0 \<le> a" "a < int (length S)"
  shows "0 < spec_outer_size S a" "0 < spec_inner_size S a" "0 < spec_axis_extent S a"
proof -
  have "\<forall>d \<in> set (take (nat a) S). 0 < d" using assms(1) by (meson in_set_takeD)
  then show "0 < spec_outer_size S a" unfolding spec_outer_size_def by (rule prod_list_pos)
  have "\<forall>d \<in> set (drop (nat a + 1) S). 0 < d" using assms(1) by (meson in_set_dropD)
  then show "0 < spec_inner_size S a" unfolding spec_inner_size_def by (rule prod_list_pos)
  have "nat a < length S" using assms(2,3) by simp
  then have "S ! nat a \<in> set S" by simp
  then show "0 < spec_axis_extent S a" using assms(1) by (simp add: spec_axis_extent_def)
qed

lemma spec_sizes_total:
  assumes "0 \<le> a" "a < int (length S)"
  shows "prod_list S = spec_outer_size S a * spec_inner_size S a * spec_axis_extent S a"
proof -
  have "nat a < length S" using assms by simp
  then have "prod_list S = prod_list (take (nat a) S) * S ! nat a * prod_list (drop (Suc (nat a)) S)"
    by (rule prod_list_split)
  then show ?thesis
    by (simp add: spec_outer_size_def spec_inner_size_def spec_axis_extent_def)
qed

lemma hardmax_kernel_valid:
  assumes "0 \<le> a" "a < int (length (buf_shape data))"
  shows "hardmax_kernel data out_buf a =
           (Inr (kernel_tree (buf_id data) (buf_id out_buf) (prod_list (buf_shape data))
                   (spec_outer_size (buf_shape data) a) (spec_inner_size (buf_shape data) a)
                   (spec_axis_extent (buf_shape data) a)),
            \<lparr>allocs = hm_allocs,
             scopes = [[zero_fill_loop (buf_id out_buf) (prod_list (buf_shape data)),
                        mark_loops (buf_id data) (buf_id out_buf)
                          (spec_outer_size (buf_shape data) a) (spec_inner_size (buf_shape data) a)
                          (spec_axis_extent (buf_shape data) a)]]\<rparr>)"
proof -
  have na: "a \<noteq> - 1" using assms(1) by simp
  have g: "tuple_getitem (buf_shape data) a = Inr (buf_shape data ! nat a)"
    using assms by (simp add: tuple_getitem_def Let_def)
  show ?thesis
    unfolding hardmax_kernel_cases
    using na g assms(1)
    by (simp add: Let_def fold_enum_lt fold_enum_gt prod_eq
                  spec_outer_size_def spec_inner_size_def spec_axis_extent_def)
qed

lemma hardmax_valid:
  assumes "0 \<le> a" "a < int (length S)"
  shows "hardmax \<lparr>shape = S, dtype = dt\<rparr> a =
           Inr \<lparr>ext_shape = S, ext_dtype = dt, ext_inputs = [\<lparr>shape = S, dtype = dt\<rparr>],
                ext_scratch = hm_allocs,
                ext_body = kernel_tree (Ins 0) (Outs 0) (prod_list S)
                             (spec_outer_size S a) (spec_inner_size S a) (spec_axis_extent S a)\<rparr>"
  using assms by (simp add: hardmax_def te_extern_def hardmax_kernel_valid)

lemma init_mem_hardmax:
  "init_mem \<lparr>ext_shape = S, ext_dtype = dt, ext_inputs = ts, ext_scratch = hm_allocs, ext_body = b\<rparr> [x]
     = hm_mem Map.empty None None x (replicate (nat (prod_list S)) None)"
  by (auto simp: init_mem_def hm_mem_def hm_allocs_def prod_eq fun_eq_iff split: buffer_id.split)

lemma read_out_all:
  "(\<forall>q < length ys. \<exists>v. ys ! q = Some (FltV v)) \<Longrightarrow>
   \<exists>out. read_out ys = Inr out \<and> length out = length ys \<and> (\<forall>q < length ys. ys ! q = Some (FltV (out ! q)))"
proof (induction ys)
  case Nil
  then show ?case by simp
next
  case (Cons y ys)
  from Cons.prems have "\<exists>v. (y # ys) ! 0 = Some (FltV v)" by blast
  then obtain v where y: "y = Some (FltV v)" by auto
  have "\<forall>q < length ys. \<exists>v. ys ! q = Some (FltV v)"
  proof (intro allI impI)
    fix q assume "q < length ys"
    then have "Suc q < length (y # ys)" by simp
    then have "\<exists>v. (y # ys) ! Suc q = Some (FltV v)" using Cons.prems by blast
    then show "\<exists>v. ys ! q = Some (FltV v)" by simp
  qed
  from Cons.IH [OF this] obtain out where
    o: "read_out ys = Inr out" "length out = length ys" "\<forall>q < length ys. ys ! q = Some (FltV (out ! q))"
    by blast
  have "read_out (y # ys) = Inr (v # out)" using y o(1) by simp
  moreover have "length (v # out) = length (y # ys)" using o(2) by simp
  moreover have "\<forall>q < length (y # ys). (y # ys) ! q = Some (FltV ((v # out) ! q))"
    using y o(3) by (auto simp: nth_Cons split: nat.split)
  ultimately show ?case by blast
qed

lemma marked_all_float:
  assumes m: "marked_upto x outer inner cnt d ys" and p: "0 < inner" "0 < cnt"
      and q: "q < length ys"
  shows "\<exists>v. ys ! q = Some (FltV v)"
proof -
  have len: "length ys = nat (outer * inner * cnt)" using m by (simp add: marked_upto_def)
  then have "0 \<le> int q" "int q < outer * inner * cnt" using q by simp_all
  with p obtain i j k where
    r: "0 \<le> i" "i < outer" "0 \<le> j" "j < cnt" "0 \<le> k" "k < inner"
    and e: "int q = flat_offset inner cnt i j k"
    using flat_offset_surj [of inner cnt "int q" outer] by blast
  have "ys ! nat (flat_offset inner cnt i j k)
          = Some (FltV (if d i k \<and> nat j = winner x inner cnt i k then Fin 1 else Fin 0))"
    using m r by (simp add: marked_upto_def)
  moreover have "nat (flat_offset inner cnt i j k) = q" using e by simp
  ultimately show ?thesis by auto
qed

lemma hardmax_run_char:
  assumes pos: "\<forall>d \<in> set S. 0 < d" and a: "0 \<le> a" "a < int (length S)"
      and lx: "length x = nat (prod_list S)"
  shows "\<exists>out. hardmax_run S dt a x = Inr out \<and> length out = length x \<and>
           (\<forall>i j k. 0 \<le> i \<and> i < spec_outer_size S a \<and> 0 \<le> j \<and> j < spec_axis_extent S a
                     \<and> 0 \<le> k \<and> k < spec_inner_size S a \<longrightarrow>
              out ! nat (flat_offset (spec_inner_size S a) (spec_axis_extent S a) i j k)
                = (if nat j = winner x (spec_inner_size S a) (spec_axis_extent S a) i k
                   then Fin 1 else Fin 0))"
proof -
  let ?outer = "spec_outer_size S a" and ?inner = "spec_inner_size S a"
  let ?cnt = "spec_axis_extent S a"
  let ?N = "?outer * ?inner * ?cnt"
  have sp: "0 < ?outer" "0 < ?inner" "0 < ?cnt" using pos a by (rule spec_sizes_pos)+
  have N: "prod_list S = ?N" using a by (rule spec_sizes_total)
  have lx': "length x = nat ?N" using lx N by simp
  from exec_kernel_tree [where V = Map.empty and t = None and p = None, OF sp(3) lx']
  obtain t' p' ys where
    ex: "exec (kernel_tree (Ins 0) (Outs 0) ?N ?outer ?inner ?cnt)
              (hm_mem Map.empty None None x (replicate (nat ?N) None))
           = Inr (hm_mem Map.empty t' p' x ys)"
    and mk: "marked_upto x ?outer ?inner ?cnt (\<lambda>i' k'. True) ys"
    by blast
  have len: "length ys = nat ?N" using mk by (simp add: marked_upto_def)
  have "\<forall>q < length ys. \<exists>v. ys ! q = Some (FltV v)"
    using marked_all_float [OF mk sp(2,3)] by blast
  from read_out_all [OF this] obtain out where
    ro: "read_out ys = Inr out" and lo: "length out = length ys"
    and el: "\<forall>q < length ys. ys ! q = Some (FltV (out ! q))"
    by blast
  have run: "hardmax_run S dt a x = Inr out"
    using ex ro by (simp add: hardmax_run_def hardmax_valid [OF a] execute_def init_mem_hardmax N)
  have "out ! nat (flat_offset ?inner ?cnt i j k)
          = (if nat j = winner x ?inner ?cnt i k then Fin 1 else Fin 0)"
    if r: "0 \<le> i" "i < ?outer" "0 \<le> j" "j < ?cnt" "0 \<le> k" "k < ?inner" for i j k
  proof -
    have b: "0 \<le> flat_offset ?inner ?cnt i j k" "flat_offset ?inner ?cnt i j k < ?N"
      using r by (rule flat_offset_bounds)+
    then have "nat (flat_offset ?inner ?cnt i j k) < length ys" using len by simp
    then have "ys ! nat (flat_offset ?inner ?cnt i j k) = Some (FltV (out ! nat (flat_offset ?inner ?cnt i j k)))"
      using el by blast
    moreover have "ys ! nat (flat_offset ?inner ?cnt i j k)
                     = Some (FltV (if nat j = winner x ?inner ?cnt i k then Fin 1 else Fin 0))"
      using mk r by (simp add: marked_upto_def)
    ultimately show ?thesis by simp
  qed
  then show ?thesis using run lo len lx' by auto
qed

subsection \<open>Construction as a whole\<close>

lemma hardmax_kernel_fail:
  assumes "tuple_getitem (buf_shape data) (if a = - 1 then int (length (buf_shape data)) - 1 else a) = Inl e"
  shows "hardmax_kernel data out_buf a =
           (Inl e, \<lparr>allocs = hm_allocs,
                    scopes = [[zero_fill_loop (buf_id out_buf) (prod_list (buf_shape data))]]\<rparr>)"
proof (cases "a = - 1")
  case True
  then show ?thesis using assms unfolding hardmax_kernel_cases by (simp add: Let_def prod_eq)
next
  case False
  then show ?thesis using assms unfolding hardmax_kernel_cases by (simp add: Let_def prod_eq)
qed

lemma hardmax_kernel_succeeds:
  assumes "tuple_getitem (buf_shape data) (if a = - 1 then int (length (buf_shape data)) - 1 else a) = Inr c"
  shows "\<exists>tree. fst (hardmax_kernel data out_buf a) = Inr tree"
proof (cases "a = - 1")
  case True
  then show ?thesis using assms unfolding hardmax_kernel_cases by (simp add: Let_def)
next
  case False
  then show ?thesis using assms unfolding hardmax_kernel_cases by (simp add: Let_def)
qed

lemma hardmax_from_kernel:
  "hardmax t a =
     (case hardmax_kernel \<lparr>buf_id = Ins 0, buf_shape = shape t, buf_dtype = dtype t\<rparr>
                          \<lparr>buf_id = Outs 0, buf_shape = shape t, buf_dtype = dtype t\<rparr> a of
        (Inl e, ib) \<Rightarrow> Inl e
      | (Inr body, ib) \<Rightarrow>
          Inr \<lparr>ext_shape = shape t, ext_dtype = dtype t, ext_inputs = [t],
               ext_scratch = allocs ib, ext_body = body\<rparr>)"
  by (simp add: hardmax_def te_extern_def)

lemma hardmax_kernel_axis_cong:
  assumes "(if a = - 1 then int (length (buf_shape data)) - 1 else a)
             = (if b = - 1 then int (length (buf_shape data)) - 1 else b)"
  shows "hardmax_kernel data out_buf a = hardmax_kernel data out_buf b"
  unfolding hardmax_kernel_cases Let_def by (simp only: assms)

subsection \<open>Axis groups of the result\<close>

lemma winner_first_max:
  assumes "0 < cnt"
  shows "first_max_at (axis_slice x inner cnt i k) (winner x inner cnt i k)"
proof -
  have "0 < nat cnt" using assms by simp
  then show ?thesis
    unfolding axis_slice_def winner_def by (rule best_j_first_max)
qed

lemma winner_zero:
  assumes "\<forall>j < nat cnt. \<not> fgt (x ! nat (flat_offset inner cnt i (int j) k)) NegInf"
  shows "winner x inner cnt i k = 0"
proof -
  let ?g = "\<lambda>j. x ! nat (flat_offset inner cnt i (int j) k)"
  have "snd (best_j ?g (nat cnt)) = 0
        \<or> (snd (best_j ?g (nat cnt)) < nat cnt \<and> fgt (?g (snd (best_j ?g (nat cnt)))) NegInf)"
    using best_j_shape [of ?g "nat cnt"] by auto
  then consider (none) "snd (best_j ?g (nat cnt)) = 0"
    | (some) "snd (best_j ?g (nat cnt)) < nat cnt" "fgt (?g (snd (best_j ?g (nat cnt)))) NegInf"
    by auto
  then show ?thesis
  proof cases
    case none
    then show ?thesis by (simp add: winner_def)
  next
    case some
    then show ?thesis using assms by blast
  qed
qed

lemma slices_one_hot:
  assumes "\<forall>i j k. 0 \<le> i \<and> i < outer \<and> 0 \<le> j \<and> j < cnt \<and> 0 \<le> k \<and> k < inner \<longrightarrow>
             out ! nat (flat_offset inner cnt i j k) = (if nat j = w i k then Fin 1 else Fin 0)"
      and "0 \<le> i" "i < outer" "0 \<le> k" "k < inner"
  shows "axis_slice out inner cnt i k = one_hot (nat cnt) (w i k)"
proof -
  have "out ! nat (flat_offset inner cnt i (int j) k) = (if j = w i k then Fin 1 else Fin 0)"
    if "j < nat cnt" for j
  proof -
    have "0 \<le> int j" "int j < cnt" using that by simp_all
    then have "out ! nat (flat_offset inner cnt i (int j) k)
                 = (if nat (int j) = w i k then Fin 1 else Fin 0)"
      using assms by blast
    then show ?thesis by simp
  qed
  then show ?thesis by (simp add: axis_slice_def one_hot_def)
qed

lemma foldl_fadd_marks:
  "distinct xs \<Longrightarrow>
   foldl fadd (Fin a) (map (\<lambda>j. if j = w then Fin 1 else Fin 0) xs)
     = Fin (a + (if w \<in> set xs then 1 else 0))"
  by (induction xs arbitrary: a) auto

lemma fsum_one_hot: "w < n \<Longrightarrow> fsum (one_hot n w) = Fin 1"
  using foldl_fadd_marks [of "[0..<n]" 0 w] by (simp add: fsum_def one_hot_def)

lemma hardmax_example:
  "hardmax_run [2, 3] dt 1 [Fin 1, Fin 5, Fin 3, Fin 9, Fin 2, Fin 2]
     = Inr [Fin 0, Fin 1, Fin 0, Fin 1, Fin 0, Fin 0]"
  by code_simp

text \<open>The result, one axis group at a time.\<close>

lemma hardmax_run_groups:
  assumes "\<forall>d \<in> set S. 0 < d" and "0 \<le> a" and "a < int (length S)"
      and "length x = nat (prod_list S)"
  shows "\<exists>out. hardmax_run S dt a x = Inr out \<and> length out = length x \<and>
           (\<forall>i k. 0 \<le> i \<and> i < spec_outer_size S a \<and> 0 \<le> k \<and> k < spec_inner_size S a \<longrightarrow>
              axis_slice out (spec_inner_size S a) (spec_axis_extent S a) i k
                = one_hot (nat (spec_axis_extent S a))
                    (winner x (spec_inner_size S a) (spec_axis_extent S a) i k))"
proof -
  from hardmax_run_char [OF assms, of dt] obtain out where
    run: "hardmax_run S dt a x = Inr out" and len: "length out = length x"
    and el: "\<forall>i j k. 0 \<le> i \<and> i < spec_outer_size S a \<and> 0 \<le> j \<and> j < spec_axis_extent S a
                     \<and> 0 \<le> k \<and> k < spec_inner_size S a \<longrightarrow>
              out ! nat (flat_offset (spec_inner_size S a) (spec_axis_extent S a) i j k)
                = (if nat j = winner x (spec_inner_size S a) (spec_axis_extent S a) i k
                   then Fin 1 else Fin 0)"
    by blast
  have "axis_slice out (spec_inner_size S a) (spec_axis_extent S a) i k
          = one_hot (nat (spec_axis_extent S a))
              (winner x (spec_inner_size S a) (spec_axis_extent S a) i k)"
    if "0 \<le> i" "i < spec_outer_size S a" "0 \<le> k" "k < spec_inner_size S a" for i k
    using el that by (rule slices_one_hot)
  then show ?thesis using run len by blast
qed

subsection \<open>The normalized axis\<close>

lemma normalized_axis_range:
  assumes "(0 \<le> a \<and> a < int (length S)) \<or> (a = - 1 \<and> S \<noteq> [])"
  shows "0 \<le> normalized_axis S a" and "normalized_axis S a < int (length S)"
  using assms by (auto simp: normalized_axis_def)

lemma hardmax_kernel_normalized:
  "hardmax_kernel data out_buf a = hardmax_kernel data out_buf (normalized_axis (buf_shape data) a)"
  by (rule hardmax_kernel_axis_cong) (simp add: normalized_axis_def)

lemma hardmax_normalized: "hardmax t a = hardmax t (normalized_axis (shape t) a)"
proof -
  let ?d = "\<lparr>buf_id = Ins 0, buf_shape = shape t, buf_dtype = dtype t\<rparr>"
  let ?o = "\<lparr>buf_id = Outs 0, buf_shape = shape t, buf_dtype = dtype t\<rparr>"
  have "hardmax_kernel ?d ?o a = hardmax_kernel ?d ?o (normalized_axis (buf_shape ?d) a)"
    by (rule hardmax_kernel_normalized)
  then show ?thesis by (simp add: hardmax_from_kernel)
qed

lemma hardmax_run_normalized:
  "hardmax_run S dt a x = hardmax_run S dt (normalized_axis S a) x"
  using hardmax_normalized [of "\<lparr>shape = S, dtype = dt\<rparr>" a] by (simp add: hardmax_run_def)

subsection \<open>Axes that need no normalization\<close>

lemma one_hot_first_max_at_axis:
  assumes "\<forall>d \<in> set S. 0 < d" and "0 \<le> a" and "a < int (length S)"
      and "length x = nat (prod_list S)"
  shows "(\<exists>out. hardmax_run S dt a x = Inr out \<and> length out = length x \<and>
            (\<forall>i k. 0 \<le> i \<and> i < spec_outer_size S a \<and> 0 \<le> k \<and> k < spec_inner_size S a \<longrightarrow>
               (\<exists>j. axis_slice out (spec_inner_size S a) (spec_axis_extent S a) i k
                       = one_hot (nat (spec_axis_extent S a)) j
                  \<and> fsum (axis_slice out (spec_inner_size S a) (spec_axis_extent S a) i k) = Fin 1
                  \<and> first_max_at (axis_slice x (spec_inner_size S a) (spec_axis_extent S a) i k) j
                  \<and> (NaN \<notin> set (axis_slice x (spec_inner_size S a) (spec_axis_extent S a) i k) \<longrightarrow>
                       lowest_attaining_max
                         (axis_slice x (spec_inner_size S a) (spec_axis_extent S a) i k) j))))
       \<and> hardmax_run [2, 3] dt 1 [Fin 1, Fin 5, Fin 3, Fin 9, Fin 2, Fin 2]
           = Inr [Fin 0, Fin 1, Fin 0, Fin 1, Fin 0, Fin 0]"
proof -
  let ?inner = "spec_inner_size S a" and ?cnt = "spec_axis_extent S a"
  have cp: "0 < ?cnt" using assms(1-3) by (rule spec_sizes_pos)
  from hardmax_run_groups [OF assms, of dt] obtain out where
    run: "hardmax_run S dt a x = Inr out" and len: "length out = length x"
    and sl: "\<forall>i k. 0 \<le> i \<and> i < spec_outer_size S a \<and> 0 \<le> k \<and> k < ?inner \<longrightarrow>
               axis_slice out ?inner ?cnt i k = one_hot (nat ?cnt) (winner x ?inner ?cnt i k)"
    by blast
  have "\<exists>j. axis_slice out ?inner ?cnt i k = one_hot (nat ?cnt) j
           \<and> fsum (axis_slice out ?inner ?cnt i k) = Fin 1
           \<and> first_max_at (axis_slice x ?inner ?cnt i k) j
           \<and> (NaN \<notin> set (axis_slice x ?inner ?cnt i k) \<longrightarrow>
                 lowest_attaining_max (axis_slice x ?inner ?cnt i k) j)"
    if r: "0 \<le> i \<and> i < spec_outer_size S a \<and> 0 \<le> k \<and> k < ?inner" for i k
  proof -
    let ?w = "winner x ?inner ?cnt i k"
    have 1: "axis_slice out ?inner ?cnt i k = one_hot (nat ?cnt) ?w" using sl r by blast
    have "?w < nat ?cnt" using winner_less [OF cp, of x ?inner i k] by simp
    then have 2: "fsum (axis_slice out ?inner ?cnt i k) = Fin 1"
      unfolding 1 by (rule fsum_one_hot)
    have 3: "first_max_at (axis_slice x ?inner ?cnt i k) ?w"
      using cp by (rule winner_first_max)
    have 4: "NaN \<notin> set (axis_slice x ?inner ?cnt i k) \<longrightarrow>
               lowest_attaining_max (axis_slice x ?inner ?cnt i k) ?w"
      using 3 first_max_at_comparable by blast
    show ?thesis using 1 2 3 4 by blast
  qed
  then show ?thesis using run len hardmax_example by blast
qed

lemma scan_structure_at_axis:
  assumes "0 \<le> a" and "a < int (length (buf_shape data))"
  shows "let outer = spec_outer_size (buf_shape data) a;
             inner = spec_inner_size (buf_shape data) a;
             cnt = spec_axis_extent (buf_shape data) a;
             base = Mul (Mul (Var ''i0'') (IntConst inner)) (IntConst cnt);
             offset = Add (Add base (Mul (Var ''j'') (IntConst inner))) (Var ''k'')
         in (\<exists>zero. fst (hardmax_kernel data out_buf a) =
               Inr (Seq [zero,
                 For ''i0'' (IntConst 0) (IntConst outer)
                   (Seq [For ''k'' (IntConst 0) (IntConst inner)
                     (Seq [ScratchStore ''temp_data'' (IntConst 0) (FloatConst NegInf),
                           ScratchStore ''temp1_data'' (IntConst 0) (Add base (Var ''k'')),
                           For ''j'' (IntConst 0) (IntConst cnt)
                             (Seq [IfThenElse
                                     (GT (BufLoad (buf_id data) offset)
                                         (ScratchLoad ''temp_data'' (IntConst 0)))
                                     (Seq [ScratchStore ''temp1_data'' (IntConst 0) offset,
                                           ScratchStore ''temp_data'' (IntConst 0)
                                             (BufLoad (buf_id data) offset)])
                                     None]),
                           BufStore (buf_id out_buf) (ScratchLoad ''temp1_data'' (IntConst 0))
                             (FloatConst (Fin 1))])])]))
          \<and> (\<forall>m i j k. vars m ''i0'' = Some i \<and> vars m ''j'' = Some j \<and> vars m ''k'' = Some k \<longrightarrow>
                 eval offset m = Inr (IntV (i * inner * cnt + j * inner + k)))"
  unfolding hardmax_kernel_valid [OF assms]
  by (simp add: Let_def tree_defs)

lemma idempotent_at_axis:
  assumes "\<forall>d \<in> set S. 0 < d" and "0 \<le> a" and "a < int (length S)"
      and "length x = nat (prod_list S)"
  shows "\<exists>y. hardmax_run S dt a x = Inr y \<and> hardmax_run S dt a y = Inr y"
proof -
  let ?outer = "spec_outer_size S a" and ?inner = "spec_inner_size S a"
  let ?cnt = "spec_axis_extent S a"
  have sp: "0 < ?inner" "0 < ?cnt" using assms(1-3) by (rule spec_sizes_pos)+
  have N: "prod_list S = ?outer * ?inner * ?cnt" using assms(2,3) by (rule spec_sizes_total)
  from hardmax_run_char [OF assms, of dt] obtain y where
    runx: "hardmax_run S dt a x = Inr y" and leny: "length y = length x"
    and ely: "\<forall>i j k. 0 \<le> i \<and> i < ?outer \<and> 0 \<le> j \<and> j < ?cnt \<and> 0 \<le> k \<and> k < ?inner \<longrightarrow>
              y ! nat (flat_offset ?inner ?cnt i j k)
                = (if nat j = winner x ?inner ?cnt i k then Fin 1 else Fin 0)"
    by blast
  have ly: "length y = nat (prod_list S)" using leny assms(4) by simp
  from hardmax_run_char [OF assms(1-3) ly, of dt] obtain z where
    runy: "hardmax_run S dt a y = Inr z" and lenz: "length z = length y"
    and elz: "\<forall>i j k. 0 \<le> i \<and> i < ?outer \<and> 0 \<le> j \<and> j < ?cnt \<and> 0 \<le> k \<and> k < ?inner \<longrightarrow>
              z ! nat (flat_offset ?inner ?cnt i j k)
                = (if nat j = winner y ?inner ?cnt i k then Fin 1 else Fin 0)"
    by blast
  have same: "winner y ?inner ?cnt i k = winner x ?inner ?cnt i k"
    if r: "0 \<le> i" "i < ?outer" "0 \<le> k" "k < ?inner" for i k
  proof -
    have "axis_slice y ?inner ?cnt i k = one_hot (nat ?cnt) (winner x ?inner ?cnt i k)"
      using ely r by (rule slices_one_hot)
    moreover have "first_max_at (axis_slice y ?inner ?cnt i k) (winner y ?inner ?cnt i k)"
      using sp(2) by (rule winner_first_max)
    moreover have "winner x ?inner ?cnt i k < nat ?cnt"
      using winner_less [OF sp(2), of x ?inner i k] by simp
    ultimately show ?thesis using first_max_at_one_hot by metis
  qed
  have "z ! q = y ! q" if "q < length z" for q
  proof -
    have "0 \<le> int q" "int q < ?outer * ?inner * ?cnt" using that lenz ly N by simp_all
    with sp obtain i j k where
      r: "0 \<le> i \<and> i < ?outer \<and> 0 \<le> j \<and> j < ?cnt \<and> 0 \<le> k \<and> k < ?inner"
      and e: "int q = flat_offset ?inner ?cnt i j k"
      using flat_offset_surj [of ?inner ?cnt "int q" ?outer] by blast
    have q: "nat (flat_offset ?inner ?cnt i j k) = q" using e by simp
    have "z ! nat (flat_offset ?inner ?cnt i j k) = y ! nat (flat_offset ?inner ?cnt i j k)"
      using ely elz r same by simp
    then show ?thesis using q by simp
  qed
  then have "z = y" using lenz by (intro nth_equalityI) simp_all
  with runx runy show ?thesis by simp
qed

lemma best_offset_at_axis:
  assumes "\<forall>d \<in> set S. 0 < d" and "0 \<le> a" and "a < int (length S)"
      and "length x = nat (prod_list S)"
  shows "let outer = spec_outer_size S a; inner = spec_inner_size S a; cnt = spec_axis_extent S a;
             start = Add (Mul (Mul (Var ''i0'') (IntConst inner)) (IntConst cnt)) (Var ''k'')
         in (\<exists>op zero first scan.
               hardmax \<lparr>shape = S, dtype = dt\<rparr> a = Inr op
             \<and> ext_body op =
                 Seq [zero,
                      For ''i0'' (IntConst 0) (IntConst outer)
                        (Seq [For ''k'' (IntConst 0) (IntConst inner)
                          (Seq [first,
                                ScratchStore ''temp1_data'' (IntConst 0) start,
                                For ''j'' (IntConst 0) (IntConst cnt) scan,
                                BufStore (Outs 0) (ScratchLoad ''temp1_data'' (IntConst 0))
                                  (FloatConst (Fin 1))])])])
          \<and> (\<forall>m i k. vars m ''i0'' = Some i \<and> vars m ''k'' = Some k \<longrightarrow>
                 eval start m = Inr (IntV (flat_offset inner cnt i 0 k))
               \<and> flat_offset inner cnt i 0 k = i * inner * cnt + k)
          \<and> (\<exists>out. hardmax_run S dt a x = Inr out \<and>
                (\<forall>i k. 0 \<le> i \<and> i < outer \<and> 0 \<le> k \<and> k < inner \<longrightarrow>
                   (\<exists>j < nat cnt. \<forall>j' < nat cnt.
                      (out ! nat (flat_offset inner cnt i (int j') k) = Fin 1) = (j' = j))
                 \<and> ((\<forall>j < nat cnt. \<not> fgt (x ! nat (flat_offset inner cnt i (int j) k)) NegInf) \<longrightarrow>
                       out ! nat (flat_offset inner cnt i 0 k) = Fin 1)))"
proof -
  let ?outer = "spec_outer_size S a" and ?inner = "spec_inner_size S a"
  let ?cnt = "spec_axis_extent S a"
  let ?start = "Add (Mul (Mul (Var ''i0'') (IntConst ?inner)) (IntConst ?cnt)) (Var ''k'')"
  have cp: "0 < ?cnt" using assms(1-3) by (rule spec_sizes_pos)
  have A: "\<exists>op zero first scan.
               hardmax \<lparr>shape = S, dtype = dt\<rparr> a = Inr op
             \<and> ext_body op =
                 Seq [zero,
                      For ''i0'' (IntConst 0) (IntConst ?outer)
                        (Seq [For ''k'' (IntConst 0) (IntConst ?inner)
                          (Seq [first,
                                ScratchStore ''temp1_data'' (IntConst 0) ?start,
                                For ''j'' (IntConst 0) (IntConst ?cnt) scan,
                                BufStore (Outs 0) (ScratchLoad ''temp1_data'' (IntConst 0))
                                  (FloatConst (Fin 1))])])]"
    unfolding hardmax_valid [OF assms(2,3)]
    by (simp add: kernel_tree_def mark_loops_def group_body_def scan_loop_def)
  have B: "\<forall>m i k. vars m ''i0'' = Some i \<and> vars m ''k'' = Some k \<longrightarrow>
             eval ?start m = Inr (IntV (flat_offset ?inner ?cnt i 0 k))
           \<and> flat_offset ?inner ?cnt i 0 k = i * ?inner * ?cnt + k"
    by (simp add: flat_offset_def)
  from hardmax_run_char [OF assms, of dt] obtain out where
    run: "hardmax_run S dt a x = Inr out"
    and el: "\<forall>i j k. 0 \<le> i \<and> i < ?outer \<and> 0 \<le> j \<and> j < ?cnt \<and> 0 \<le> k \<and> k < ?inner \<longrightarrow>
              out ! nat (flat_offset ?inner ?cnt i j k)
                = (if nat j = winner x ?inner ?cnt i k then Fin 1 else Fin 0)"
    by blast
  have C: "(\<exists>j < nat ?cnt. \<forall>j' < nat ?cnt.
              (out ! nat (flat_offset ?inner ?cnt i (int j') k) = Fin 1) = (j' = j))
         \<and> ((\<forall>j < nat ?cnt. \<not> fgt (x ! nat (flat_offset ?inner ?cnt i (int j) k)) NegInf) \<longrightarrow>
               out ! nat (flat_offset ?inner ?cnt i 0 k) = Fin 1)"
    if r: "0 \<le> i \<and> i < ?outer \<and> 0 \<le> k \<and> k < ?inner" for i k
  proof -
    let ?w = "winner x ?inner ?cnt i k"
    have w: "?w < nat ?cnt" using winner_less [OF cp, of x ?inner i k] by simp
    have at: "out ! nat (flat_offset ?inner ?cnt i (int j') k) = (if j' = ?w then Fin 1 else Fin 0)"
      if "j' < nat ?cnt" for j'
    proof -
      have "0 \<le> int j' \<and> int j' < ?cnt" using that by simp
      then have "out ! nat (flat_offset ?inner ?cnt i (int j') k)
                   = (if nat (int j') = ?w then Fin 1 else Fin 0)"
        using el r by blast
      then show ?thesis by simp
    qed
    have 1: "\<forall>j' < nat ?cnt. (out ! nat (flat_offset ?inner ?cnt i (int j') k) = Fin 1) = (j' = ?w)"
      using at by simp
    have 2: "out ! nat (flat_offset ?inner ?cnt i 0 k) = Fin 1"
      if "\<forall>j < nat ?cnt. \<not> fgt (x ! nat (flat_offset ?inner ?cnt i (int j) k)) NegInf"
    proof -
      have "?w = 0" using that by (rule winner_zero)
      then show ?thesis using at [of 0] w by simp
    qed
    show ?thesis using w 1 2 by blast
  qed
  show ?thesis
    unfolding Let_def using A B run C by blast
qed

section \<open>The claims\<close>

text \<open>
  C1, as the claim states it, fails: the axis \<open>-2\<close> is a valid axis of the rank-2 shape
  \<open>(2, 3)\<close>, but the kernel built for it gives no one-hot output. Run on
  \<open>[[1,5,3],[9,2,2]]\<close> it reads outside the six elements of the input.
\<close>

theorem hardmax_one_hot_counterexample:
  "hardmax_run [2, 3] ''float32'' (- 2) [Fin 1, Fin 5, Fin 3, Fin 9, Fin 2, Fin 2] = Inl OutOfBounds"
  by code_simp

text \<open>
  C1, amended. For every shape of positive extents, every axis \<open>a\<close> that is \<open>-1\<close> or
  satisfies \<open>0 \<le> a < rank\<close>, and every input of that shape, building the kernel and running
  it succeeds, and for every pair of an outer index \<open>i\<close> and an inner index \<open>k\<close> the output
  along the normalized axis (\<open>rank - 1\<close> for \<open>-1\<close>, else \<open>a\<close>) is one-hot: 1.0 at one
  position \<open>j\<close>, 0.0 at the others, so that the values add up to 1.0. Position \<open>j\<close> is the
  lowest one holding the maximum of the input along the axis: no element compares greater
  than the one at \<open>j\<close>, and none before \<open>j\<close> compares greater than or equal to it; when no
  NaN is among them, the element at \<open>j\<close> is greater than or equal to every element and no
  earlier element is. In particular the input \<open>[[1,5,3],[9,2,2]]\<close> of shape \<open>(2,3)\<close> with
  axis \<open>1\<close> gives \<open>[[0,1,0],[1,0,0]]\<close>.
\<close>

theorem hardmax_one_hot_first_max:
  assumes "\<forall>d \<in> set S. 0 < d"
      and "(0 \<le> a \<and> a < int (length S)) \<or> (a = - 1 \<and> S \<noteq> [])"
      and "length x = nat (prod_list S)"
  shows "let n = normalized_axis S a;
             outer = spec_outer_size S n; inner = spec_inner_size S n; cnt = spec_axis_extent S n
         in (\<exists>out. hardmax_run S dt a x = Inr out \<and> length out = length x \<and>
               (\<forall>i k. 0 \<le> i \<and> i < outer \<and> 0 \<le> k \<and> k < inner \<longrightarrow>
                  (\<exists>j. axis_slice out inner cnt i k = one_hot (nat cnt) j
                     \<and> fsum (axis_slice out inner cnt i k) = Fin 1
                     \<and> first_max_at (axis_slice x inner cnt i k) j
                     \<and> (NaN \<notin> set (axis_slice x inner cnt i k) \<longrightarrow>
                          lowest_attaining_max (axis_slice x inner cnt i k) j))))
          \<and> hardmax_run [2, 3] dt 1 [Fin 1, Fin 5, Fin 3, Fin 9, Fin 2, Fin 2]
              = Inr [Fin 0, Fin 1, Fin 0, Fin 1, Fin 0, Fin 0]"
proof -
  let ?n = "normalized_axis S a"
  have r: "0 \<le> ?n" "?n < int (length S)" using assms(2) by (rule normalized_axis_range)+
  have e: "hardmax_run S dt a x = hardmax_run S dt ?n x" by (rule hardmax_run_normalized)
  show ?thesis
    unfolding Let_def e using one_hot_first_max_at_axis [OF assms(1) r assms(3), of dt] .
qed

theorem hardmax_one_hot_first_max_witness:
  "\<exists>out. hardmax_run [1, 3] ''float32'' (- 1) [Fin 4, Fin 4, Fin 1] = Inr out \<and> length out = 3
       \<and> (\<exists>j. axis_slice out 1 3 0 0 = one_hot 3 j
              \<and> first_max_at (axis_slice [Fin 4, Fin 4, Fin 1] 1 3 0 0) j)"
proof -
  have h: "\<forall>d \<in> set [1, 3::int]. 0 < d"
          "(0 \<le> (- 1::int) \<and> (- 1::int) < int (length [1, 3::int])) \<or> ((- 1::int) = - 1 \<and> [1, 3::int] \<noteq> [])"
          "length [Fin 4, Fin 4, Fin 1] = nat (prod_list [1, 3])"
    by simp_all
  have n: "normalized_axis [1, 3] (- 1) = 1" by (simp add: normalized_axis_def)
  have sizes: "spec_outer_size [1, 3] 1 = 1" "spec_inner_size [1, 3] 1 = 1"
              "spec_axis_extent [1, 3] 1 = 3"
    by (simp_all add: spec_outer_size_def spec_inner_size_def spec_axis_extent_def)
  from hardmax_one_hot_first_max [OF h, of "''float32''"] obtain out where
    run: "hardmax_run [1, 3] ''float32'' (- 1) [Fin 4, Fin 4, Fin 1] = Inr out"
    and len: "length out = length [Fin 4, Fin 4, Fin 1]"
    and grp: "\<forall>i k. 0 \<le> i \<and> i < 1 \<and> 0 \<le> k \<and> k < 1 \<longrightarrow>
               (\<exists>j. axis_slice out 1 3 i k = one_hot (nat 3) j
                  \<and> fsum (axis_slice out 1 3 i k) = Fin 1
                  \<and> first_max_at (axis_slice [Fin 4, Fin 4, Fin 1] 1 3 i k) j
                  \<and> (NaN \<notin> set (axis_slice [Fin 4, Fin 4, Fin 1] 1 3 i k) \<longrightarrow>
                       lowest_attaining_max (axis_slice [Fin 4, Fin 4, Fin 1] 1 3 i k) j))"
    unfolding Let_def n sizes by blast
  have "(0::int) \<le> 0 \<and> (0::int) < 1 \<and> (0::int) \<le> 0 \<and> (0::int) < 1" by simp
  with grp obtain j where
    "axis_slice out 1 3 0 0 = one_hot (nat 3) j"
    "first_max_at (axis_slice [Fin 4, Fin 4, Fin 1] 1 3 0 0) j"
    by blast
  with run len show ?thesis by auto
qed

text \<open>
  C2, as the claim states it, fails: on the shape \<open>(2, 3)\<close> the axis \<open>-2\<close> is not turned
  into axis \<open>0\<close>. The operator built for \<open>-2\<close> differs from the one built for \<open>-2 + 2\<close>.
\<close>

theorem negative_axis_not_normalized_counterexample:
  "hardmax \<lparr>shape = [2, 3], dtype = ''float32''\<rparr> (- 2)
     \<noteq> hardmax \<lparr>shape = [2, 3], dtype = ''float32''\<rparr> (- 2 + 2)"
  by (simp add: hardmax_def te_extern_def hardmax_kernel_cases Let_def tuple_getitem_def
                kernel_tree_def mark_loops_def)

text \<open>
  C2, amended. For every tensor, the axis \<open>-1\<close> is normalized to \<open>rank - 1\<close>: the
  operator built for axis \<open>-1\<close>, kernel included, is the one built for axis \<open>rank - 1\<close>.
\<close>

theorem axis_minus_one_is_last:
  "hardmax data (- 1) = hardmax data (int (length (shape data)) - 1)"
proof -
  let ?d = "\<lparr>buf_id = Ins 0, buf_shape = shape data, buf_dtype = dtype data\<rparr>"
  let ?o = "\<lparr>buf_id = Outs 0, buf_shape = shape data, buf_dtype = dtype data\<rparr>"
  have "hardmax_kernel ?d ?o (- 1) = hardmax_kernel ?d ?o (int (length (buf_shape ?d)) - 1)"
    by (rule hardmax_kernel_axis_cong) simp
  then show ?thesis by (simp add: hardmax_from_kernel)
qed

text \<open>
  C3, as the claim states it, fails: axis \<open>5\<close> on the rank-2 shape \<open>(2, 3)\<close> fails with
  \<open>IndexError\<close>, not with \<open>AxisOutOfRange\<close>, and when it fails the zero-fill loop is
  already in the session.
\<close>

theorem axis_out_of_range_counterexample:
  "hardmax_kernel \<lparr>buf_id = Ins 0, buf_shape = [2, 3], buf_dtype = ''float32''\<rparr>
                  \<lparr>buf_id = Outs 0, buf_shape = [2, 3], buf_dtype = ''float32''\<rparr> 5
     = (Inl IndexError,
        \<lparr>allocs = [\<lparr>sc_dtype = ''float32'', sc_extent = [1], sc_name = ''temp_data'', sc_scope = ''local''\<rparr>,
                   \<lparr>sc_dtype = ''int32'', sc_extent = [1], sc_name = ''temp1_data'', sc_scope = ''local''\<rparr>],
         scopes = [[For ''i'' (IntConst 0) (IntConst 6)
                      (Seq [BufStore (Outs 0) (Var ''i'') (FloatConst (Fin 0))])]]\<rparr>)
   \<and> hardmax \<lparr>shape = [2, 3], dtype = ''float32''\<rparr> 5 = Inl IndexError
   \<and> hardmax \<lparr>shape = [2, 3], dtype = ''float32''\<rparr> 5 \<noteq> Inl AxisOutOfRange"
  by (simp add: hardmax_def te_extern_def hardmax_kernel_cases Let_def tuple_getitem_def
                hm_allocs_def zero_fill_loop_def prod_def)

text \<open>
  C3, amended. For every tensor of rank \<open>r\<close> and every axis \<open>a\<close> with \<open>a < -r\<close> or
  \<open>a \<ge> r\<close>, construction fails with \<open>IndexError\<close>, raised by the lookup of the axis
  extent. The failure comes after the zero-fill loop has been emitted into the session
  and before any statement of the scan; no tree is returned.
\<close>

theorem axis_out_of_range_fails:
  assumes "a < - int (length (shape t)) \<or> int (length (shape t)) \<le> a"
  shows "hardmax t a = Inl IndexError
       \<and> hardmax_kernel \<lparr>buf_id = Ins 0, buf_shape = shape t, buf_dtype = dtype t\<rparr>
                         \<lparr>buf_id = Outs 0, buf_shape = shape t, buf_dtype = dtype t\<rparr> a
           = (Inl IndexError,
              \<lparr>allocs = [\<lparr>sc_dtype = ''float32'', sc_extent = [1], sc_name = ''temp_data'', sc_scope = ''local''\<rparr>,
                         \<lparr>sc_dtype = ''int32'', sc_extent = [1], sc_name = ''temp1_data'', sc_scope = ''local''\<rparr>],
               scopes = [[For ''i'' (IntConst 0) (IntConst (prod_list (shape t)))
                            (Seq [BufStore (Outs 0) (Var ''i'') (FloatConst (Fin 0))])]]\<rparr>)"
proof -
  let ?data = "\<lparr>buf_id = Ins 0, buf_shape = shape t, buf_dtype = dtype t\<rparr>"
  let ?ax = "if a = - 1 then int (length (buf_shape ?data)) - 1 else a"
  have "tuple_getitem (buf_shape ?data) ?ax = Inl IndexError"
    using assms by (auto simp: tuple_getitem_def)
  then have k: "hardmax_kernel ?data \<lparr>buf_id = Outs 0, buf_shape = shape t, buf_dtype = dtype t\<rparr> a
                  = (Inl IndexError,
                     \<lparr>allocs = hm_allocs,
                      scopes = [[zero_fill_loop (Outs 0) (prod_list (shape t))]]\<rparr>)"
    using hardmax_kernel_fail [of ?data a IndexError] by simp
  then have "hardmax t a = Inl IndexError" by (simp add: hardmax_from_kernel)
  then show ?thesis using k by (simp add: hm_allocs_def zero_fill_loop_def)
qed

theorem axis_out_of_range_fails_witness:
  "hardmax \<lparr>shape = [4, 2], dtype = ''float32''\<rparr> (- 3) = Inl IndexError"
  using axis_out_of_range_fails [of "- 3" "\<lparr>shape = [4, 2], dtype = ''float32''\<rparr>"]
  by simp

text \<open>
  C4, as the claim states it, fails: the shape \<open>(2, 0)\<close> holds a non-positive extent, and
  construction for axis \<open>1\<close> does not fail. It yields a complete tree.
\<close>

theorem invalid_shape_counterexample:
  "hardmax \<lparr>shape = [2, 0], dtype = ''float32''\<rparr> 1
     = Inr \<lparr>ext_shape = [2, 0], ext_dtype = ''float32'',
            ext_inputs = [\<lparr>shape = [2, 0], dtype = ''float32''\<rparr>],
            ext_scratch = hm_allocs,
            ext_body = kernel_tree (Ins 0) (Outs 0) 0 2 1 0\<rparr>
   \<and> hardmax \<lparr>shape = [2, 0], dtype = ''float32''\<rparr> 1 \<noteq> Inl InvalidShape"
  by (simp add: hardmax_def te_extern_def hardmax_kernel_cases Let_def tuple_getitem_def prod_def)

text \<open>
  C4, amended. Construction never fails with \<open>InvalidShape\<close>: the extents are not
  checked. For every shape, whatever the sign of its extents, and every axis \<open>a\<close> with
  \<open>-r \<le> a < r\<close>, construction yields a complete tree; for every shape and axis it either
  yields a complete tree or fails outright with \<open>IndexError\<close>.
\<close>

theorem construction_total_or_index_error:
  "hardmax t a \<noteq> Inl InvalidShape
   \<and> ((\<exists>op. hardmax t a = Inr op) \<or> hardmax t a = Inl IndexError)
   \<and> (- int (length (shape t)) \<le> a \<and> a < int (length (shape t)) \<longrightarrow> (\<exists>op. hardmax t a = Inr op))"
proof -
  let ?data = "\<lparr>buf_id = Ins 0, buf_shape = shape t, buf_dtype = dtype t\<rparr>"
  let ?out = "\<lparr>buf_id = Outs 0, buf_shape = shape t, buf_dtype = dtype t\<rparr>"
  let ?ax = "if a = - 1 then int (length (buf_shape ?data)) - 1 else a"
  have ok: "\<exists>op. hardmax t a = Inr op" if h: "tuple_getitem (buf_shape ?data) ?ax = Inr c" for c
  proof -
    obtain tree where "fst (hardmax_kernel ?data ?out a) = Inr tree"
      using hardmax_kernel_succeeds [OF h] by blast
    then show ?thesis
      by (cases "hardmax_kernel ?data ?out a") (simp add: hardmax_from_kernel)
  qed
  have bad: "hardmax t a = Inl IndexError" if "tuple_getitem (buf_shape ?data) ?ax = Inl IndexError"
    using hardmax_kernel_fail [OF that] by (simp add: hardmax_from_kernel)
  have split: "(\<exists>c. tuple_getitem (buf_shape ?data) ?ax = Inr c)
                 \<or> tuple_getitem (buf_shape ?data) ?ax = Inl IndexError"
    by (simp add: tuple_getitem_def)
  have range: "\<exists>c. tuple_getitem (buf_shape ?data) ?ax = Inr c"
    if "- int (length (shape t)) \<le> a \<and> a < int (length (shape t))"
    using that by (auto simp: tuple_getitem_def)
  have 1: "(\<exists>op. hardmax t a = Inr op) \<or> hardmax t a = Inl IndexError"
    using split ok bad by blast
  then have 2: "hardmax t a \<noteq> Inl InvalidShape" by auto
  have 3: "- int (length (shape t)) \<le> a \<and> a < int (length (shape t)) \<longrightarrow> (\<exists>op. hardmax t a = Inr op)"
    using range ok by blast
  show ?thesis using 1 2 3 by blast
qed

theorem construction_total_or_index_error_witness:
  "\<exists>op. hardmax \<lparr>shape = [3, - 1, 0], dtype = ''float32''\<rparr> (- 2) = Inr op"
  using construction_total_or_index_error [of "\<lparr>shape = [3, - 1, 0], dtype = ''float32''\<rparr>" "- 2"]
  by simp

text \<open>
  C5, as the claim states it, fails: for the valid axis \<open>-2\<close> of the shape \<open>(2, 3)\<close>, which
  names the first axis, the inner size is 3, but the \<open>k\<close> loop of the built scan runs over
  \<open>[0, 6)\<close> and the offsets are computed with 6 in its place.
\<close>

theorem scan_phase_structure_counterexample:
  "fst (hardmax_kernel \<lparr>buf_id = Ins 0, buf_shape = [2, 3], buf_dtype = ''float32''\<rparr>
                       \<lparr>buf_id = Outs 0, buf_shape = [2, 3], buf_dtype = ''float32''\<rparr> (- 2)) =
     Inr (Seq [For ''i'' (IntConst 0) (IntConst 6)
                 (Seq [BufStore (Outs 0) (Var ''i'') (FloatConst (Fin 0))]),
       For ''i0'' (IntConst 0) (IntConst 1)
         (Seq [For ''k'' (IntConst 0) (IntConst 6)
           (Seq [ScratchStore ''temp_data'' (IntConst 0) (FloatConst NegInf),
                 ScratchStore ''temp1_data'' (IntConst 0)
                   (Add (Mul (Mul (Var ''i0'') (IntConst 6)) (IntConst 2)) (Var ''k'')),
                 For ''j'' (IntConst 0) (IntConst 2)
                   (Seq [IfThenElse
                           (GT (BufLoad (Ins 0)
                                  (Add (Add (Mul (Mul (Var ''i0'') (IntConst 6)) (IntConst 2))
                                            (Mul (Var ''j'') (IntConst 6))) (Var ''k'')))
                               (ScratchLoad ''temp_data'' (IntConst 0)))
                           (Seq [ScratchStore ''temp1_data'' (IntConst 0)
                                   (Add (Add (Mul (Mul (Var ''i0'') (IntConst 6)) (IntConst 2))
                                             (Mul (Var ''j'') (IntConst 6))) (Var ''k'')),
                                 ScratchStore ''temp_data'' (IntConst 0)
                                   (BufLoad (Ins 0)
                                      (Add (Add (Mul (Mul (Var ''i0'') (IntConst 6)) (IntConst 2))
                                                (Mul (Var ''j'') (IntConst 6))) (Var ''k'')))])
                           None]),
                 BufStore (Outs 0) (ScratchLoad ''temp1_data'' (IntConst 0)) (FloatConst (Fin 1))])])])
   \<and> spec_inner_size [2, 3] (- 2 + 2) = 3"
  by (simp add: hardmax_kernel_cases Let_def tuple_getitem_def tree_defs prod_def spec_inner_size_def)

text \<open>
  C5, amended. For an axis \<open>a\<close> that is \<open>-1\<close> or satisfies \<open>0 \<le> a < rank\<close>, the second
  statement of the built tree is the scan: a loop \<open>i0\<close> over \<open>[0, outer_size)\<close>, inside it
  a loop \<open>k\<close> over \<open>[0, inner_size)\<close>, inside it a loop \<open>j\<close> over \<open>[0, axis_extent)\<close>, with
  the sizes as the spec words them for the normalized axis (\<open>rank - 1\<close> for \<open>-1\<close>, else
  \<open>a\<close>). The running best is set to negative infinity before the \<open>j\<close> loop; the loop
  compares the input element at the flat offset with the running best by the strict \<open>>\<close>
  and, when it is greater, records the offset and the element. The offset expression
  evaluates to \<open>i * inner_size * axis_extent + j * inner_size + k\<close>.
\<close>

theorem scan_phase_structure:
  assumes "(0 \<le> a \<and> a < int (length (buf_shape data))) \<or> (a = - 1 \<and> buf_shape data \<noteq> [])"
  shows "let n = normalized_axis (buf_shape data) a;
             outer = spec_outer_size (buf_shape data) n;
             inner = spec_inner_size (buf_shape data) n;
             cnt = spec_axis_extent (buf_shape data) n;
             base = Mul (Mul (Var ''i0'') (IntConst inner)) (IntConst cnt);
             offset = Add (Add base (Mul (Var ''j'') (IntConst inner))) (Var ''k'')
         in (\<exists>zero. fst (hardmax_kernel data out_buf a) =
               Inr (Seq [zero,
                 For ''i0'' (IntConst 0) (IntConst outer)
                   (Seq [For ''k'' (IntConst 0) (IntConst inner)
                     (Seq [ScratchStore ''temp_data'' (IntConst 0) (FloatConst NegInf),
                           ScratchStore ''temp1_data'' (IntConst 0) (Add base (Var ''k'')),
                           For ''j'' (IntConst 0) (IntConst cnt)
                             (Seq [IfThenElse
                                     (GT (BufLoad (buf_id data) offset)
                                         (ScratchLoad ''temp_data'' (IntConst 0)))
                                     (Seq [ScratchStore ''temp1_data'' (IntConst 0) offset,
                                           ScratchStore ''temp_data'' (IntConst 0)
                                             (BufLoad (buf_id data) offset)])
                                     None]),
                           BufStore (buf_id out_buf) (ScratchLoad ''temp1_data'' (IntConst 0))
                             (FloatConst (Fin 1))])])]))
          \<and> (\<forall>m i j k. vars m ''i0'' = Some i \<and> vars m ''j'' = Some j \<and> vars m ''k'' = Some k \<longrightarrow>
                 eval offset m = Inr (IntV (i * inner * cnt + j * inner + k)))"
proof -
  let ?n = "normalized_axis (buf_shape data) a"
  have r: "0 \<le> ?n" "?n < int (length (buf_shape data))"
    using assms by (rule normalized_axis_range)+
  have e: "hardmax_kernel data out_buf a = hardmax_kernel data out_buf ?n"
    by (rule hardmax_kernel_normalized)
  show ?thesis
    unfolding Let_def e using scan_structure_at_axis [OF r, of out_buf, unfolded Let_def] .
qed

theorem scan_phase_structure_witness:
  "\<exists>zero. fst (hardmax_kernel \<lparr>buf_id = Ins 0, buf_shape = [2, 3, 4], buf_dtype = ''float32''\<rparr>
                                \<lparr>buf_id = Outs 0, buf_shape = [2, 3, 4], buf_dtype = ''float32''\<rparr> (- 1)) =
     Inr (Seq [zero,
       For ''i0'' (IntConst 0) (IntConst 6)
         (Seq [For ''k'' (IntConst 0) (IntConst 1)
           (Seq [ScratchStore ''temp_data'' (IntConst 0) (FloatConst NegInf),
                 ScratchStore ''temp1_data'' (IntConst 0)
                   (Add (Mul (Mul (Var ''i0'') (IntConst 1)) (IntConst 4)) (Var ''k'')),
                 For ''j'' (IntConst 0) (IntConst 4)
                   (Seq [IfThenElse
                           (GT (BufLoad (Ins 0)
                                  (Add (Add (Mul (Mul (Var ''i0'') (IntConst 1)) (IntConst 4))
                                            (Mul (Var ''j'') (IntConst 1))) (Var ''k'')))
                               (ScratchLoad ''temp_data'' (IntConst 0)))
                           (Seq [ScratchStore ''temp1_data'' (IntConst 0)
                                   (Add (Add (Mul (Mul (Var ''i0'') (IntConst 1)) (IntConst 4))
                                             (Mul (Var ''j'') (IntConst 1))) (Var ''k'')),
                                 ScratchStore ''temp_data'' (IntConst 0)
                                   (BufLoad (Ins 0)
                                      (Add (Add (Mul (Mul (Var ''i0'') (IntConst 1)) (IntConst 4))
                                                (Mul (Var ''j'') (IntConst 1))) (Var ''k'')))])
                           None]),
                 BufStore (Outs 0) (ScratchLoad ''temp1_data'' (IntConst 0)) (FloatConst (Fin 1))])])])"
  using scan_phase_structure
          [of "- 1" "\<lparr>buf_id = Ins 0, buf_shape = [2, 3, 4], buf_dtype = ''float32''\<rparr>"
              "\<lparr>buf_id = Outs 0, buf_shape = [2, 3, 4], buf_dtype = ''float32''\<rparr>"]
  by (simp add: Let_def normalized_axis_def spec_outer_size_def spec_inner_size_def
                spec_axis_extent_def)





text \<open>
  C8, as the claim states it, fails: for the valid axis \<open>-2\<close> of the shape \<open>(2, 3)\<close> the
  kernel has no output to be applied to again. Run on \<open>[[0,1,1],[1,0,0]]\<close> it reads
  outside the six elements of the input.
\<close>

theorem hardmax_idempotent_counterexample:
  "hardmax_run [2, 3] ''float32'' (- 2) [Fin 0, Fin 1, Fin 1, Fin 1, Fin 0, Fin 0] = Inl OutOfBounds"
  by code_simp

text \<open>
  C8, amended. For every shape of positive extents, every axis \<open>a\<close> that is \<open>-1\<close> or
  satisfies \<open>0 \<le> a < rank\<close>, and every input of that shape, hardmax succeeds, and applied
  to its own output it succeeds again and returns that output.
\<close>

theorem hardmax_idempotent:
  assumes "\<forall>d \<in> set S. 0 < d"
      and "(0 \<le> a \<and> a < int (length S)) \<or> (a = - 1 \<and> S \<noteq> [])"
      and "length x = nat (prod_list S)"
  shows "\<exists>y. hardmax_run S dt a x = Inr y \<and> hardmax_run S dt a y = Inr y"
proof -
  let ?n = "normalized_axis S a"
  have r: "0 \<le> ?n" "?n < int (length S)" using assms(2) by (rule normalized_axis_range)+
  from idempotent_at_axis [OF assms(1) r assms(3), of dt] obtain y where
    "hardmax_run S dt ?n x = Inr y" "hardmax_run S dt ?n y = Inr y"
    by blast
  then have "hardmax_run S dt a x = Inr y \<and> hardmax_run S dt a y = Inr y"
    using hardmax_run_normalized [of S dt a x] hardmax_run_normalized [of S dt a y] by simp
  then show ?thesis by blast
qed

theorem hardmax_idempotent_witness:
  "\<exists>y. hardmax_run [2, 2] ''float32'' (- 1) [Fin 7, NaN, Fin 7, PosInf] = Inr y
      \<and> hardmax_run [2, 2] ''float32'' (- 1) y = Inr y"
  using hardmax_idempotent [of "[2, 2]" "- 1" "[Fin 7, NaN, Fin 7, PosInf]" "''float32''"]
  by simp

text \<open>
  C9. Whatever the element type of the input tensor, the session allocates exactly two
  scratch values: \<open>temp_data\<close>, of type float32, which the tree uses for the running best
  value, and \<open>temp1_data\<close>, of type int32, which it uses for the best offset. This holds
  for every input buffer, output buffer and axis, also when construction fails.
\<close>

theorem scratch_types_fixed:
  "allocs (snd (hardmax_kernel data out_buf a)) =
     [\<lparr>sc_dtype = ''float32'', sc_extent = [1], sc_name = ''temp_data'', sc_scope = ''local''\<rparr>,
      \<lparr>sc_dtype = ''int32'', sc_extent = [1], sc_name = ''temp1_data'', sc_scope = ''local''\<rparr>]"
  unfolding hardmax_kernel_cases
  by (simp add: Let_def hm_allocs_def split: sum.split)

text \<open>
  C10, as the claim states it, fails: for the valid axis \<open>-2\<close> of the shape \<open>(2, 3)\<close> the
  scan leaves the buffers. Run on an input that holds negative infinity everywhere, the
  kernel reads outside the six elements of the input and marks no element.
\<close>

theorem best_offset_initialised_counterexample:
  "hardmax_run [2, 3] ''float32'' (- 2) [NegInf, NegInf, NegInf, NegInf, NegInf, NegInf]
     = Inl OutOfBounds"
  by code_simp

text \<open>
  C10, amended. For every shape of positive extents and every axis \<open>a\<close> that is \<open>-1\<close> or
  satisfies \<open>0 \<le> a < rank\<close>, the body of the \<open>k\<close> loop stores into the best-offset scratch,
  before the \<open>j\<close> loop, an expression that evaluates to the flat offset of \<open>j = 0\<close>, which
  is \<open>i * inner_size * axis_extent + k\<close>, and after the \<open>j\<close> loop stores 1.0 at the offset
  the scratch holds; the sizes are those of the normalized axis (\<open>rank - 1\<close> for \<open>-1\<close>,
  else \<open>a\<close>). For every input, NaN and the infinities included, the run succeeds, so no
  store leaves the output buffer, and in every axis group exactly one element is 1.0. In
  a group where no element compares greater than negative infinity, the 1.0 is at \<open>j = 0\<close>.
\<close>

theorem best_offset_initialised:
  assumes "\<forall>d \<in> set S. 0 < d"
      and "(0 \<le> a \<and> a < int (length S)) \<or> (a = - 1 \<and> S \<noteq> [])"
      and "length x = nat (prod_list S)"
  shows "let n = normalized_axis S a;
             outer = spec_outer_size S n; inner = spec_inner_size S n; cnt = spec_axis_extent S n;
             start = Add (Mul (Mul (Var ''i0'') (IntConst inner)) (IntConst cnt)) (Var ''k'')
         in (\<exists>op zero first scan.
               hardmax \<lparr>shape = S, dtype = dt\<rparr> a = Inr op
             \<and> ext_body op =
                 Seq [zero,
                      For ''i0'' (IntConst 0) (IntConst outer)
                        (Seq [For ''k'' (IntConst 0) (IntConst inner)
                          (Seq [first,
                                ScratchStore ''temp1_data'' (IntConst 0) start,
                                For ''j'' (IntConst 0) (IntConst cnt) scan,
                                BufStore (Outs 0) (ScratchLoad ''temp1_data'' (IntConst 0))
                                  (FloatConst (Fin 1))])])])
          \<and> (\<forall>m i k. vars m ''i0'' = Some i \<and> vars m ''k'' = Some k \<longrightarrow>
                 eval start m = Inr (IntV (flat_offset inner cnt i 0 k))
               \<and> flat_offset inner cnt i 0 k = i * inner * cnt + k)
          \<and> (\<exists>out. hardmax_run S dt a x = Inr out \<and>
                (\<forall>i k. 0 \<le> i \<and> i < outer \<and> 0 \<le> k \<and> k < inner \<longrightarrow>
                   (\<exists>j < nat cnt. \<forall>j' < nat cnt.
                      (out ! nat (flat_offset inner cnt i (int j') k) = Fin 1) = (j' = j))
                 \<and> ((\<forall>j < nat cnt. \<not> fgt (x ! nat (flat_offset inner cnt i (int j) k)) NegInf) \<longrightarrow>
                       out ! nat (flat_offset inner cnt i 0 k) = Fin 1)))"
proof -
  let ?n = "normalized_axis S a"
  have r: "0 \<le> ?n" "?n < int (length S)" using assms(2) by (rule normalized_axis_range)+
  have e: "hardmax_run S dt a x = hardmax_run S dt ?n x" by (rule hardmax_run_normalized)
  have h: "hardmax \<lparr>shape = S, dtype = dt\<rparr> a = hardmax \<lparr>shape = S, dtype = dt\<rparr> ?n"
    using hardmax_normalized [of "\<lparr>shape = S, dtype = dt\<rparr>" a] by simp
  show ?thesis
    unfolding Let_def e h
    using best_offset_at_axis [OF assms(1) r assms(3), of dt, unfolded Let_def] .
qed

theorem best_offset_initialised_witness:
  "\<exists>out. hardmax_run [1, 3] ''float32'' (- 1) [NaN, NegInf, NaN] = Inr out
       \<and> out ! nat (flat_offset 1 3 0 0 0) = Fin 1"
proof -
  have h: "\<forall>d \<in> set [1, 3::int]. 0 < d"
          "(0 \<le> (- 1::int) \<and> (- 1::int) < int (length [1, 3::int])) \<or> ((- 1::int) = - 1 \<and> [1, 3::int] \<noteq> [])"
          "length [NaN, NegInf, NaN] = nat (prod_list [1, 3])"
    by simp_all
  have n: "normalized_axis [1, 3] (- 1) = 1" by (simp add: normalized_axis_def)
  have sizes: "spec_outer_size [1, 3] 1 = 1" "spec_inner_size [1, 3] 1 = 1"
              "spec_axis_extent [1, 3] 1 = 3"
    by (simp_all add: spec_outer_size_def spec_inner_size_def spec_axis_extent_def)
  from best_offset_initialised [OF h, of "''float32''"] obtain out where
    run: "hardmax_run [1, 3] ''float32'' (- 1) [NaN, NegInf, NaN] = Inr out"
    and grp: "\<forall>i k. 0 \<le> i \<and> i < 1 \<and> 0 \<le> k \<and> k < 1 \<longrightarrow>
                (\<exists>j < nat 3. \<forall>j' < nat 3.
                   (out ! nat (flat_offset 1 3 i (int j') k) = Fin 1) = (j' = j))
              \<and> ((\<forall>j < nat 3. \<not> fgt ([NaN, NegInf, NaN] ! nat (flat_offset 1 3 i (int j) k)) NegInf) \<longrightarrow>
                    out ! nat (flat_offset 1 3 i 0 k) = Fin 1)"
    unfolding Let_def n sizes by blast
  have none: "\<forall>j < nat 3. \<not> fgt ([NaN, NegInf, NaN] ! nat (flat_offset 1 3 0 (int j) 0)) NegInf"
    by (auto simp: flat_offset_def nth_Cons' less_Suc_eq numeral_3_eq_3)
  have "(0::int) \<le> 0 \<and> (0::int) < 1 \<and> (0::int) \<le> 0 \<and> (0::int) < 1" by simp
  with grp none have "out ! nat (flat_offset 1 3 0 0 0) = Fin 1" by blast
  with run show ?thesis by blast
qed

end
